theory Spec2Isabelle
  imports Complex_Main "HOL-Library.Word" "HOL-Library.Multiset" "HOL-Library.Sublist"
begin

section \<open>Schema model (app/synth_data/models.py)\<close>

text \<open>
  The pydantic classes become records. Python's field \<open>name\<close> occurs in three classes,
  so the selectors carry the class as a prefix (\<open>col_name\<close>, \<open>tbl_name\<close>,
  \<open>schema_name\<close>); the same holds for \<open>type\<close> and \<open>description\<close>.
\<close>

datatype ScalarType = TInt | TStr | TFloat | TBool | TDate | TDatetime

datatype OnDelete = Restrict | Cascade | SetNull

record ForeignKey =
  ref_table :: string
  ref_column :: string
  on_delete :: "OnDelete option"

record Column =
  col_name :: string
  col_type :: ScalarType
  col_description :: "string option"
  primary_key :: bool
  foreign_key :: "ForeignKey option"
  nullable :: bool
  unique :: bool
  faker :: "string option"

record Table =
  tbl_name :: string
  tbl_description :: "string option"
  columns :: "Column list"

record Schema =
  schema_name :: string
  schema_description :: "string option"
  tables :: "Table list"

text \<open>\<open>Column._pk_fk_are_exclusive\<close>: the two checks that raise, negated.\<close>

definition valid_column :: "Column \<Rightarrow> bool" where
  "valid_column c \<longleftrightarrow>
     \<not> (primary_key c \<and> foreign_key c \<noteq> None) \<and> \<not> (primary_key c \<and> nullable c)"

text \<open>\<open>Table._validate_table\<close>, over columns that were themselves validated.\<close>

definition valid_table :: "Table \<Rightarrow> bool" where
  "valid_table t \<longleftrightarrow>
     list_all valid_column (columns t) \<and>
     columns t \<noteq> [] \<and>
     distinct (map col_name (columns t)) \<and>
     list_ex primary_key (columns t)"

text \<open>
  \<open>Schema._validate_schema\<close>. \<open>table_by_name\<close> is the dict
  \<open>{t.name: t for t in self.tables}\<close>: the last table of a name wins.
\<close>

definition table_by_name :: "Table list \<Rightarrow> string \<Rightarrow> Table option" where
  "table_by_name ts = map_of (rev (map (\<lambda>t. (tbl_name t, t)) ts))"

definition fk_resolves :: "Table list \<Rightarrow> Column \<Rightarrow> bool" where
  "fk_resolves ts col =
     (case foreign_key col of
        None \<Rightarrow> True
      | Some fk \<Rightarrow>
          (case table_by_name ts (ref_table fk) of
             None \<Rightarrow> False
           | Some rt \<Rightarrow> ref_column fk \<in> set (map col_name (columns rt))))"

definition valid_schema :: "Schema \<Rightarrow> bool" where
  "valid_schema s \<longleftrightarrow>
     list_all valid_table (tables s) \<and>
     tables s \<noteq> [] \<and>
     distinct (map tbl_name (tables s)) \<and>
     list_all (\<lambda>t. list_all (fk_resolves (tables s)) (columns t)) (tables s)"

text \<open>\<open>Table.primary_keys\<close>, \<open>Table.foreign_keys\<close>, \<open>Schema.dependency_edges\<close>.\<close>

definition primary_keys :: "Table \<Rightarrow> Column list" where
  "primary_keys t = filter primary_key (columns t)"

definition foreign_keys :: "Table \<Rightarrow> Column list" where
  "foreign_keys t = filter (\<lambda>c. foreign_key c \<noteq> None) (columns t)"

definition fk_edges :: "Table \<Rightarrow> (string \<times> string) list" where
  "fk_edges t =
     concat (map (\<lambda>col. case foreign_key col of
                           None \<Rightarrow> []
                         | Some fk \<Rightarrow> [(tbl_name t, ref_table fk)]) (foreign_keys t))"

definition dependency_edges :: "Schema \<Rightarrow> (string \<times> string) list" where
  "dependency_edges s = concat (map fk_edges (tables s))"

section \<open>Dependency resolver (\<open>_toposort_tables\<close> in app/synth_data/codegen.py)\<close>

text \<open>
  Both raises of the resolver are \<open>ValueError\<close>s; the constructor records which message
  it carries. \<open>KeyError\<close> is what Python raises on a dict lookup of a missing key.
\<close>

datatype resolve_error =
    SelfReferentialFK string
  | CyclicFK "string list"
  | KeyError string

text \<open>
  The dicts \<open>indeg\<close> and \<open>out\<close> are created with the key set \<open>tables\<close> and never gain
  or lose a key, so each is a total function next to the key list \<open>ts\<close>; a lookup
  outside \<open>ts\<close> is the \<open>KeyError\<close> branch.

  \<open>out[t]\<close> is a Python \<open>set\<close> of strings. It is kept as the list of its elements in
  insertion order without repetition (\<open>set_add\<close>). The order in which
  \<open>for child in out[t]\<close> visits a set is not fixed by the language (it follows the
  string hashes, which change from process to process), so the resolver takes the
  iteration order as the parameter \<open>iter\<close>, which rearranges the element list.
\<close>

type_synonym graph = "(string \<Rightarrow> int) \<times> (string \<Rightarrow> string list)"

definition set_add :: "'a \<Rightarrow> 'a list \<Rightarrow> 'a list" where
  "set_add x xs = (if x \<in> set xs then xs else xs @ [x])"

text \<open>Lines 17-21: one edge that passed the self-reference test.\<close>

definition add_edge :: "string list \<Rightarrow> graph \<Rightarrow> string \<times> string \<Rightarrow> graph" where
  "add_edge ts g e =
     (case (g, e) of ((indeg, out), (child, parent)) \<Rightarrow>
        if parent \<notin> set ts \<or> child \<notin> set ts then (indeg, out)
        else if parent \<notin> set (out parent)
          then (indeg(child := indeg child + 1), out(parent := set_add child (out parent)))
          else (indeg, out))"

text \<open>Lines 14-21: the loop over the edges, stopped by the first self-reference.\<close>

fun build_graph :: "string list \<Rightarrow> (string \<times> string) list \<Rightarrow> graph \<Rightarrow> resolve_error + graph" where
  "build_graph ts [] g = Inr g"
| "build_graph ts ((child, parent) # es) g =
     (if child = parent then Inl (SelfReferentialFK child)
      else build_graph ts es (add_edge ts g (child, parent)))"

text \<open>Lines 28-31: the inner loop over the children of the table just popped.\<close>

fun relax :: "string list \<Rightarrow> string list \<Rightarrow> (string \<Rightarrow> int) \<times> string list
    \<Rightarrow> resolve_error + ((string \<Rightarrow> int) \<times> string list)" where
  "relax ts [] (indeg, q) = Inr (indeg, q)"
| "relax ts (child # cs) (indeg, q) =
     (if child \<notin> set ts then Inl (KeyError child)
      else let indeg' = indeg(child := indeg child - 1)
           in relax ts cs (indeg', if indeg' child = 0 then q @ [child] else q))"

definition pending :: "string list \<Rightarrow> (string \<Rightarrow> int) \<Rightarrow> nat" where
  "pending ts indeg = length (filter (\<lambda>t. 0 < indeg t) ts)"

lemma pending_decr:
  "pending ts (indeg(c := indeg c - 1)) \<le> pending ts indeg"
  unfolding pending_def
  by (induction ts) auto

lemma pending_hit_zero:
  assumes "c \<in> set ts" "indeg c = 1"
  shows "pending ts (indeg(c := 0)) < pending ts indeg"
  using assms unfolding pending_def
proof (induction ts)
  case Nil
  then show ?case by simp
next
  case (Cons a ts)
  have le: "length (filter (\<lambda>t. 0 < (indeg(c := 0)) t) ts) \<le> length (filter (\<lambda>t. 0 < indeg t) ts)"
    by (induction ts) auto
  show ?case
  proof (cases "c \<in> set ts")
    case True
    with Cons have "length (filter (\<lambda>t. 0 < (indeg(c := 0)) t) ts)
        < length (filter (\<lambda>t. 0 < indeg t) ts)" by simp
    then show ?thesis by auto
  next
    case False
    with Cons.prems have "a = c" by simp
    with le Cons.prems show ?thesis by simp
  qed
qed

lemma relax_measure:
  "relax ts cs (indeg, q) = Inr (indeg', q')
   \<Longrightarrow> length q' + pending ts indeg' \<le> length q + pending ts indeg"
proof (induction cs arbitrary: indeg q)
  case Nil
  then show ?case by simp
next
  case (Cons c cs)
  from Cons.prems have in_ts: "c \<in> set ts"
    by (auto split: if_splits)
  show ?case
  proof (cases "indeg c = 1")
    case True
    with Cons.prems in_ts
    have "relax ts cs (indeg(c := 0), q @ [c]) = Inr (indeg', q')"
      by (simp add: Let_def)
    from Cons.IH [OF this]
    have a: "length q' + pending ts indeg' \<le> Suc (length q) + pending ts (indeg(c := 0))"
      by (simp del: fun_upd_apply)
    from pending_hit_zero [of c ts indeg] in_ts True
    have b: "pending ts (indeg(c := 0)) < pending ts indeg" by blast
    from a b show ?thesis by linarith
  next
    case False
    with Cons.prems in_ts
    have "relax ts cs (indeg(c := indeg c - 1), q) = Inr (indeg', q')"
      by (simp add: Let_def)
    from Cons.IH [OF this]
    have a: "length q' + pending ts indeg' \<le> length q + pending ts (indeg(c := indeg c - 1))" .
    from a pending_decr [of ts indeg c] show ?thesis by linarith
  qed
qed

text \<open>Lines 25-31: the queue loop. \<open>q.popleft()\<close> takes the head, \<open>q.append\<close> adds at the end.\<close>

function kahn :: "(string list \<Rightarrow> string list) \<Rightarrow> string list \<Rightarrow> (string \<Rightarrow> string list)
    \<Rightarrow> (string \<Rightarrow> int) \<Rightarrow> string list \<Rightarrow> string list \<Rightarrow> resolve_error + string list" where
  "kahn iter ts out indeg [] ordered = Inr ordered"
| "kahn iter ts out indeg (t # q) ordered =
     (if t \<notin> set ts then Inl (KeyError t)
      else case relax ts (iter (out t)) (indeg, q) of
             Inl e \<Rightarrow> Inl e
           | Inr (indeg', q') \<Rightarrow> kahn iter ts out indeg' q' (ordered @ [t]))"
  by pat_completeness auto
termination
proof (relation "measure (\<lambda>(iter, ts, out, indeg, q, ordered). length q + pending ts indeg)")
  show "wf (measure (\<lambda>(iter, ts, out, indeg, q, ordered). length q + pending ts indeg))"
    by simp
next
  fix iter :: "string list \<Rightarrow> string list" and ts out indeg t q and ordered :: "string list"
    and x2 indeg' q'
  assume "\<not> t \<notin> set ts" and r: "relax ts (iter (out t)) (indeg, q) = Inr x2"
    and x2: "(indeg', q') = x2"
  from r x2 have "relax ts (iter (out t)) (indeg, q) = Inr (indeg', q')" by simp
  from relax_measure [OF this]
  show "((iter, ts, out, indeg', q', ordered @ [t]), (iter, ts, out, indeg, t # q, ordered))
      \<in> measure (\<lambda>(iter, ts, out, indeg, q, ordered). length q + pending ts indeg)"
    by simp
qed

text \<open>
  \<open>_toposort_tables\<close> as a whole: the graph, the initial queue of the tables of indegree
  0 in declaration order, the queue loop, and the final length test.
\<close>

definition initial_ready :: "string list \<Rightarrow> (string \<Rightarrow> int) \<Rightarrow> string list" where
  "initial_ready ts indeg = filter (\<lambda>t. indeg t = 0) ts"

definition resolver_graph :: "Schema \<Rightarrow> resolve_error + graph" where
  "resolver_graph schema =
     build_graph (map tbl_name (tables schema)) (dependency_edges schema) (\<lambda>_. 0, \<lambda>_. [])"

text \<open>The value of \<open>ordered\<close> when the queue loop ends (lines 10-31).\<close>

definition kahn_ordered :: "(string list \<Rightarrow> string list) \<Rightarrow> Schema \<Rightarrow> resolve_error + string list" where
  "kahn_ordered iter schema =
     (let ts = map tbl_name (tables schema) in
      case resolver_graph schema of
        Inl e \<Rightarrow> Inl e
      | Inr (indeg, out) \<Rightarrow> kahn iter ts out indeg (initial_ready ts indeg) [])"

definition toposort_tables :: "(string list \<Rightarrow> string list) \<Rightarrow> Schema \<Rightarrow> resolve_error + string list" where
  "toposort_tables iter schema =
     (let ts = map tbl_name (tables schema) in
      case kahn_ordered iter schema of
        Inl e \<Rightarrow> Inl e
      | Inr ordered \<Rightarrow>
          if length ordered \<noteq> length ts
          then Inl (CyclicFK (filter (\<lambda>t. t \<notin> set ordered) ts))
          else Inr ordered)"

text \<open>
  What Python guarantees of the iteration over a set: every element once, in some order.
\<close>

definition valid_iter :: "(string list \<Rightarrow> string list) \<Rightarrow> bool" where
  "valid_iter iter \<longleftrightarrow> (\<forall>xs. distinct xs \<longrightarrow> distinct (iter xs) \<and> set (iter xs) = set xs)"

definition index_of :: "'a list \<Rightarrow> 'a \<Rightarrow> nat" where
  "index_of xs x = length (takeWhile (\<lambda>y. y \<noteq> x) xs)"

lemma index_of_nth:
  "distinct xs \<Longrightarrow> i < length xs \<Longrightarrow> index_of xs (xs ! i) = i"
  unfolding index_of_def
proof (induction xs arbitrary: i)
  case Nil
  then show ?case by simp
next
  case (Cons a xs)
  then show ?case by (cases i) auto
qed

lemma relax_closed:
  "distinct cs \<Longrightarrow> set cs \<subseteq> set ts \<Longrightarrow>
   relax ts cs (indeg, q) =
     Inr (\<lambda>x. if x \<in> set cs then indeg x - 1 else indeg x, q @ filter (\<lambda>x. indeg x = 1) cs)"
proof (induction cs arbitrary: indeg q)
  case Nil
  then show ?case by simp
next
  case (Cons c cs)
  have f: "filter (\<lambda>x. (indeg(c := indeg c - 1)) x = 1) cs = filter (\<lambda>x. indeg x = 1) cs"
    using Cons.prems by (intro filter_cong) auto
  have g: "(\<lambda>x. if x \<in> set cs then (indeg(c := indeg c - 1)) x - 1 else (indeg(c := indeg c - 1)) x)
      = (\<lambda>x. if x \<in> set (c # cs) then indeg x - 1 else indeg x)"
    using Cons.prems by (intro ext) auto
  from Cons.prems have p: "distinct cs" "set cs \<subseteq> set ts" "c \<in> set ts" by auto
  have step: "relax ts (c # cs) (indeg, q) =
      relax ts cs (indeg(c := indeg c - 1), if indeg c = 1 then q @ [c] else q)"
    using p(3) by (auto simp: Let_def)
  have "relax ts cs (indeg(c := indeg c - 1), if indeg c = 1 then q @ [c] else q) =
      Inr (\<lambda>x. if x \<in> set (c # cs) then indeg x - 1 else indeg x,
           (if indeg c = 1 then q @ [c] else q) @ filter (\<lambda>x. indeg x = 1) cs)"
    unfolding Cons.IH [OF p(1,2)] f g ..
  with step show ?case by simp
qed

definition unprocessed :: "string list \<Rightarrow> (string \<Rightarrow> string list) \<Rightarrow> string list \<Rightarrow> string \<Rightarrow> string set" where
  "unprocessed ts out ordered x = {p \<in> set ts. x \<in> set (out p) \<and> p \<notin> set ordered}"

definition parents_first :: "string list \<Rightarrow> (string \<Rightarrow> string list) \<Rightarrow> string list \<Rightarrow> bool" where
  "parents_first ts out xs \<longleftrightarrow>
     (\<forall>i < length xs. \<forall>p \<in> set ts. xs ! i \<in> set (out p) \<longrightarrow> p \<in> set (take i xs))"

definition kahn_inv :: "string list \<Rightarrow> (string \<Rightarrow> string list) \<Rightarrow> (string \<Rightarrow> int)
    \<Rightarrow> string list \<Rightarrow> string list \<Rightarrow> bool" where
  "kahn_inv ts out indeg q ordered \<longleftrightarrow>
     distinct (ordered @ q) \<and> set (ordered @ q) \<subseteq> set ts \<and>
     (\<forall>x \<in> set (ordered @ q). indeg x \<le> 0) \<and>
     (\<forall>x. int (card (unprocessed ts out ordered x)) \<le> indeg x) \<and>
     parents_first ts out ordered"

lemma finite_unprocessed: "finite (unprocessed ts out ordered x)"
  unfolding unprocessed_def by simp

lemma unprocessed_step:
  "unprocessed ts out (ordered @ [t]) x = unprocessed ts out ordered x - {t}"
  unfolding unprocessed_def by auto

lemma kahn_inv_step:
  assumes inv: "kahn_inv ts out indeg (t # q) ordered"
    and cs: "distinct cs" "set cs = set (out t)"
    and out_ts: "set (out t) \<subseteq> set ts"
  shows "kahn_inv ts out (\<lambda>x. if x \<in> set cs then indeg x - 1 else indeg x)
           (q @ filter (\<lambda>x. indeg x = 1) cs) (ordered @ [t])"
proof -
  let ?indeg' = "\<lambda>x. if x \<in> set cs then indeg x - 1 else indeg x"
  let ?new = "filter (\<lambda>x. indeg x = 1) cs"
  from inv have d: "distinct (ordered @ t # q)"
    and s: "set (ordered @ t # q) \<subseteq> set ts"
    and z: "\<forall>x \<in> set (ordered @ t # q). indeg x \<le> 0"
    and u: "\<forall>x. int (card (unprocessed ts out ordered x)) \<le> indeg x"
    and pf: "parents_first ts out ordered"
    unfolding kahn_inv_def by auto
  have t_ts: "t \<in> set ts" and t_new: "t \<notin> set ordered" using d s by auto
  have new_fresh: "\<forall>x \<in> set ?new. x \<notin> set (ordered @ t # q)"
    using z by fastforce
  have d': "distinct ((ordered @ [t]) @ q @ ?new)"
    using d new_fresh cs(1) by auto
  have s': "set ((ordered @ [t]) @ q @ ?new) \<subseteq> set ts"
    using s cs(2) out_ts by auto
  have z': "\<forall>x \<in> set ((ordered @ [t]) @ q @ ?new). ?indeg' x \<le> 0"
  proof
    fix x assume "x \<in> set ((ordered @ [t]) @ q @ ?new)"
    then consider "x \<in> set (ordered @ t # q)" | "x \<in> set ?new" by auto
    then show "?indeg' x \<le> 0"
    proof cases
      case 1
      with z have "indeg x \<le> 0" by blast
      then show ?thesis by simp
    next
      case 2
      then show ?thesis by simp
    qed
  qed
  have u': "int (card (unprocessed ts out (ordered @ [t]) x)) \<le> ?indeg' x" for x
  proof (cases "x \<in> set cs")
    case True
    then have "t \<in> unprocessed ts out ordered x"
      using t_ts t_new cs(2) unfolding unprocessed_def by simp
    then have "card (unprocessed ts out ordered x - {t}) = card (unprocessed ts out ordered x) - 1"
      and "0 < card (unprocessed ts out ordered x)"
      using finite_unprocessed [of ts out ordered x] by (auto simp: card_gt_0_iff)
    with u [rule_format, of x] True show ?thesis
      by (simp add: unprocessed_step)
  next
    case False
    then have "t \<notin> unprocessed ts out ordered x"
      using cs(2) unfolding unprocessed_def by simp
    with u [rule_format, of x] False show ?thesis
      by (simp add: unprocessed_step)
  qed
  have pf': "parents_first ts out (ordered @ [t])"
    unfolding parents_first_def
  proof (intro allI impI ballI)
    fix i p
    assume i: "i < length (ordered @ [t])" and p: "p \<in> set ts"
      and c: "(ordered @ [t]) ! i \<in> set (out p)"
    show "p \<in> set (take i (ordered @ [t]))"
    proof (cases "i < length ordered")
      case True
      with pf p c show ?thesis
        unfolding parents_first_def by (auto simp: nth_append)
    next
      case False
      with i have il: "i = length ordered" by simp
      with c have tp: "t \<in> set (out p)" by simp
      from z have "indeg t \<le> 0" by simp
      with u [rule_format, of t] have "card (unprocessed ts out ordered t) = 0" by simp
      then have "unprocessed ts out ordered t = {}"
        using finite_unprocessed [of ts out ordered t] by simp
      with p tp have "p \<in> set ordered"
        unfolding unprocessed_def by auto
      with il show ?thesis by simp
    qed
  qed
  from d' s' z' u' pf' show ?thesis
    unfolding kahn_inv_def by blast
qed

lemma kahn_result:
  "valid_iter iter \<Longrightarrow> \<forall>p. distinct (out p) \<Longrightarrow> \<forall>p. set (out p) \<subseteq> set ts \<Longrightarrow>
   kahn_inv ts out indeg q ordered \<Longrightarrow>
   \<exists>res. kahn iter ts out indeg q ordered = Inr res \<and>
         distinct res \<and> set res \<subseteq> set ts \<and> parents_first ts out res"
proof (induction iter ts out indeg q ordered rule: kahn.induct)
  case (1 iter ts out indeg ordered)
  then show ?case unfolding kahn_inv_def by simp
next
  case (2 iter ts out indeg t q ordered)
  note vi = "2.prems"(1) and out_d = "2.prems"(2) and out_ts = "2.prems"(3)
    and inv = "2.prems"(4)
  from inv have t_ts: "t \<in> set ts" unfolding kahn_inv_def by simp
  let ?cs = "iter (out t)"
  from vi out_d have cs: "distinct ?cs" "set ?cs = set (out t)"
    unfolding valid_iter_def by auto
  with out_ts have sub: "set ?cs \<subseteq> set ts" by simp
  let ?indeg' = "\<lambda>x. if x \<in> set ?cs then indeg x - 1 else indeg x"
  let ?q' = "q @ filter (\<lambda>x. indeg x = 1) ?cs"
  have r: "relax ts ?cs (indeg, q) = Inr (?indeg', ?q')"
    by (rule relax_closed [OF cs(1) sub])
  have inv': "kahn_inv ts out ?indeg' ?q' (ordered @ [t])"
    using kahn_inv_step [OF inv cs] out_ts by simp
  from "2.IH" [OF _ r refl vi out_d out_ts inv'] t_ts
  obtain res where "kahn iter ts out ?indeg' ?q' (ordered @ [t]) = Inr res"
    "distinct res" "set res \<subseteq> set ts" "parents_first ts out res"
    by auto
  with t_ts r show ?case by simp
qed

definition graph_inv :: "string list \<Rightarrow> graph \<Rightarrow> bool" where
  "graph_inv ts g \<longleftrightarrow>
     (case g of (indeg, out) \<Rightarrow>
        (\<forall>p. distinct (out p)) \<and> (\<forall>p. set (out p) \<subseteq> set ts) \<and> (\<forall>p. p \<notin> set (out p)) \<and>
        (\<forall>x. int (card (unprocessed ts out [] x)) \<le> indeg x))"

lemma graph_inv_empty: "graph_inv ts (\<lambda>_. 0, \<lambda>_. [])"
  unfolding graph_inv_def unprocessed_def by simp

lemma add_edge_inv:
  assumes inv: "graph_inv ts (indeg, out)" and ne: "child \<noteq> parent"
  shows "graph_inv ts (add_edge ts (indeg, out) (child, parent))"
proof (cases "parent \<in> set ts \<and> child \<in> set ts")
  case False
  with inv show ?thesis unfolding add_edge_def by auto
next
  case True
  from inv have d: "\<forall>p. distinct (out p)" and s: "\<forall>p. set (out p) \<subseteq> set ts"
    and n: "\<forall>p. p \<notin> set (out p)"
    and u: "\<forall>x. int (card (unprocessed ts out [] x)) \<le> indeg x"
    unfolding graph_inv_def by auto
  let ?out' = "out(parent := set_add child (out parent))"
  let ?indeg' = "indeg(child := indeg child + 1)"
  have eq: "add_edge ts (indeg, out) (child, parent) = (?indeg', ?out')"
    using True n unfolding add_edge_def by simp
  have d': "\<forall>p. distinct (?out' p)" using d by (simp add: set_add_def)
  have s': "\<forall>p. set (?out' p) \<subseteq> set ts" using s True by (auto simp: set_add_def)
  have n': "\<forall>p. p \<notin> set (?out' p)" using n ne by (auto simp: set_add_def)
  have u': "int (card (unprocessed ts ?out' [] x)) \<le> ?indeg' x" for x
  proof (cases "x = child")
    case True
    have "unprocessed ts ?out' [] child \<subseteq> insert parent (unprocessed ts out [] child)"
      unfolding unprocessed_def by (auto simp: set_add_def split: if_splits)
    then have "card (unprocessed ts ?out' [] child) \<le> card (insert parent (unprocessed ts out [] child))"
      by (intro card_mono) (simp_all add: finite_unprocessed)
    also have "\<dots> \<le> card (unprocessed ts out [] child) + 1"
      by (simp add: card_insert_if finite_unprocessed)
    finally show ?thesis using u [rule_format, of child] True by simp
  next
    case False
    then have "unprocessed ts ?out' [] x = unprocessed ts out [] x"
      unfolding unprocessed_def by (auto simp: set_add_def split: if_splits)
    with u [rule_format, of x] False show ?thesis by simp
  qed
  from d' s' n' u' show ?thesis
    unfolding eq graph_inv_def by simp
qed

lemma add_edge_mono:
  "add_edge ts (indeg, out) e = (indeg', out') \<Longrightarrow> set (out p) \<subseteq> set (out' p)"
  unfolding add_edge_def by (auto simp: set_add_def split: prod.splits if_splits)

lemma add_edge_member:
  assumes "graph_inv ts (indeg, out)" "child \<in> set ts" "parent \<in> set ts"
    and "add_edge ts (indeg, out) (child, parent) = (indeg', out')"
  shows "child \<in> set (out' parent)"
  using assms unfolding add_edge_def graph_inv_def
  by (auto simp: set_add_def split: if_splits)

lemma build_graph_inv:
  "build_graph ts es g = Inr g' \<Longrightarrow> graph_inv ts g \<Longrightarrow>
   graph_inv ts g' \<and> (\<forall>p. set (snd g p) \<subseteq> set (snd g' p)) \<and>
   (\<forall>(c, p) \<in> set es. c \<noteq> p \<and> (c \<in> set ts \<longrightarrow> p \<in> set ts \<longrightarrow> c \<in> set (snd g' p)))"
proof (induction ts es g rule: build_graph.induct)
  case (1 ts g)
  then show ?case by simp
next
  case (2 ts child parent es g)
  obtain indeg out where g: "g = (indeg, out)" by (cases g)
  from "2.prems"(1) have ne: "child \<noteq> parent" by (auto split: if_splits)
  obtain indeg1 out1 where a: "add_edge ts (indeg, out) (child, parent) = (indeg1, out1)"
    by (cases "add_edge ts (indeg, out) (child, parent)")
  from "2.prems" ne g a have b: "build_graph ts es (indeg1, out1) = Inr g'" by simp
  from add_edge_inv [OF _ ne, of ts indeg out] "2.prems"(2) g a
  have inv1: "graph_inv ts (indeg1, out1)" by simp
  from "2.IH" [OF ne] a g b inv1
  have ih: "graph_inv ts g'" "\<forall>p. set (out1 p) \<subseteq> set (snd g' p)"
    "\<forall>(c, p) \<in> set es. c \<noteq> p \<and> (c \<in> set ts \<longrightarrow> p \<in> set ts \<longrightarrow> c \<in> set (snd g' p))"
    by auto
  have mono: "\<forall>p. set (snd g p) \<subseteq> set (snd g' p)"
    using add_edge_mono [OF a] ih(2) g by fastforce
  have "child \<in> set ts \<longrightarrow> parent \<in> set ts \<longrightarrow> child \<in> set (snd g' parent)"
    using add_edge_member [OF _ _ _ a] "2.prems"(2) g ih(2) by auto
  with ih ne mono show ?case by simp
qed

lemma fk_is_edge:
  "t \<in> set (tables s) \<Longrightarrow> col \<in> set (columns t) \<Longrightarrow> foreign_key col = Some fk \<Longrightarrow>
   (tbl_name t, ref_table fk) \<in> set (dependency_edges s)"
  unfolding dependency_edges_def fk_edges_def foreign_keys_def
  by (auto intro!: bexI [of _ t] bexI [of _ col])

lemma edge_is_fk:
  "(c, p) \<in> set (dependency_edges s) \<Longrightarrow>
   \<exists>t \<in> set (tables s). \<exists>col \<in> set (columns t). \<exists>fk.
      foreign_key col = Some fk \<and> c = tbl_name t \<and> p = ref_table fk"
  unfolding dependency_edges_def fk_edges_def foreign_keys_def
  by (auto split: option.splits) blast

lemma table_by_name_dom:
  "table_by_name ts n = Some t \<Longrightarrow> t \<in> set ts \<and> tbl_name t = n"
  unfolding table_by_name_def by (auto dest!: map_of_SomeD)

lemma edges_in_tables:
  assumes "valid_schema s" "(c, p) \<in> set (dependency_edges s)"
  shows "c \<in> set (map tbl_name (tables s)) \<and> p \<in> set (map tbl_name (tables s))"
proof -
  from edge_is_fk [OF assms(2)] obtain t col fk where
    t: "t \<in> set (tables s)" and col: "col \<in> set (columns t)"
    and fk: "foreign_key col = Some fk" and c: "c = tbl_name t" and p: "p = ref_table fk"
    by blast
  from assms(1) t col have "fk_resolves (tables s) col"
    unfolding valid_schema_def by (simp add: list_all_iff)
  with fk obtain rt where "table_by_name (tables s) (ref_table fk) = Some rt"
    unfolding fk_resolves_def by (auto split: option.splits)
  from table_by_name_dom [OF this] have "rt \<in> set (tables s)" "tbl_name rt = ref_table fk"
    by simp_all
  then have "ref_table fk \<in> tbl_name ` set (tables s)" by (metis imageI)
  with p have "p \<in> set (map tbl_name (tables s))" by simp
  with t c show ?thesis by simp
qed

lemma toposort_sound:
  assumes vs: "valid_schema s" and vi: "valid_iter iter"
    and res: "toposort_tables iter s = Inr order"
  shows "distinct order \<and> set order = set (map tbl_name (tables s)) \<and>
         (\<forall>(c, p) \<in> set (dependency_edges s). index_of order p < index_of order c)"
proof -
  let ?ts = "map tbl_name (tables s)"
  from vs have dts: "distinct ?ts" unfolding valid_schema_def by simp
  from res obtain indeg out where
    bg: "build_graph ?ts (dependency_edges s) (\<lambda>_. 0, \<lambda>_. []) = Inr (indeg, out)"
    unfolding toposort_tables_def kahn_ordered_def resolver_graph_def
    by (auto simp: Let_def split: sum.splits)
  from build_graph_inv [OF bg graph_inv_empty]
  have gi: "graph_inv ?ts (indeg, out)"
    and mem: "\<forall>(c, p) \<in> set (dependency_edges s).
        c \<noteq> p \<and> (c \<in> set ?ts \<longrightarrow> p \<in> set ?ts \<longrightarrow> c \<in> set (out p))"
    by auto
  from gi have out_d: "\<forall>p. distinct (out p)" and out_ts: "\<forall>p. set (out p) \<subseteq> set ?ts"
    and u: "\<forall>x. int (card (unprocessed ?ts out [] x)) \<le> indeg x"
    unfolding graph_inv_def by auto
  have inv0: "kahn_inv ?ts out indeg (initial_ready ?ts indeg) []"
    unfolding kahn_inv_def initial_ready_def parents_first_def
    using dts u by auto
  from kahn_result [OF vi out_d out_ts inv0] obtain r where
    k: "kahn iter ?ts out indeg (initial_ready ?ts indeg) [] = Inr r"
    and dr: "distinct r" and sr: "set r \<subseteq> set ?ts" and pf: "parents_first ?ts out r"
    by blast
  from res bg k have len: "length r = length ?ts" and ord: "order = r"
    unfolding toposort_tables_def kahn_ordered_def resolver_graph_def
    by (auto simp: Let_def split: if_splits)
  have "card (set r) = length r" by (rule distinct_card [OF dr])
  moreover have "card (set ?ts) = length ?ts" by (rule distinct_card [OF dts])
  ultimately have "card (set r) = card (set ?ts)" using len by simp
  with sr have seq: "set r = set ?ts"
    by (intro card_subset_eq) simp_all
  have "index_of r p < index_of r c" if e: "(c, p) \<in> set (dependency_edges s)" for c p
  proof -
    from edges_in_tables [OF vs e] have cp: "c \<in> set ?ts" "p \<in> set ?ts" by auto
    with mem e have cin: "c \<in> set (out p)" by auto
    from cp(1) seq have "c \<in> set r" by simp
    then obtain i where i: "i < length r" "r ! i = c"
      by (metis in_set_conv_nth)
    with pf cp cin have "p \<in> set (take i r)"
      unfolding parents_first_def by blast
    then obtain j where "j < length (take i r)" "take i r ! j = p"
      by (metis in_set_conv_nth)
    with i(1) have j: "j < i" "r ! j = p" by simp_all
    from index_of_nth [OF dr i(1)] i(2) have "index_of r c = i" by simp
    moreover from index_of_nth [OF dr, of j] j i(1) have "index_of r p = j" by simp
    ultimately show ?thesis using j(1) by simp
  qed
  with dr seq ord show ?thesis by auto
qed


subsection \<open>Example schemas\<close>

definition pk_column :: "string \<Rightarrow> ScalarType \<Rightarrow> Column" where
  "pk_column n ty = \<lparr>col_name = n, col_type = ty, col_description = None, primary_key = True,
     foreign_key = None, nullable = False, unique = False, faker = None\<rparr>"

definition fk_column :: "string \<Rightarrow> string \<Rightarrow> string \<Rightarrow> Column" where
  "fk_column n rt rc = \<lparr>col_name = n, col_type = TInt, col_description = None, primary_key = False,
     foreign_key = Some \<lparr>ref_table = rt, ref_column = rc, on_delete = None\<rparr>,
     nullable = False, unique = False, faker = None\<rparr>"

definition mk_table :: "string \<Rightarrow> Column list \<Rightarrow> Table" where
  "mk_table n cs = \<lparr>tbl_name = n, tbl_description = None, columns = cs\<rparr>"

definition mk_schema :: "Table list \<Rightarrow> Schema" where
  "mk_schema ts = \<lparr>schema_name = ''synthetic_dataset'', schema_description = None, tables = ts\<rparr>"

definition dup_fk_schema :: Schema where
  "dup_fk_schema = mk_schema
     [mk_table ''Y'' [pk_column ''id'' TInt],
      mk_table ''X'' [pk_column ''id'' TInt, fk_column ''y1'' ''Y'' ''id'', fk_column ''y2'' ''Y'' ''id'']]"

definition cycle_abc :: Schema where
  "cycle_abc = mk_schema
     [mk_table ''A'' [pk_column ''id'' TInt, fk_column ''b'' ''B'' ''id''],
      mk_table ''B'' [pk_column ''id'' TInt, fk_column ''c'' ''C'' ''id''],
      mk_table ''C'' [pk_column ''id'' TInt, fk_column ''a'' ''A'' ''id'']]"

definition self_ref_schema :: Schema where
  "self_ref_schema = mk_schema
     [mk_table ''T'' [pk_column ''id'' TInt, fk_column ''parent'' ''T'' ''id'']]"

definition fan_schema :: Schema where
  "fan_schema = mk_schema
     [mk_table ''P'' [pk_column ''id'' TInt],
      mk_table ''A'' [pk_column ''id'' TInt, fk_column ''p'' ''P'' ''id''],
      mk_table ''B'' [pk_column ''id'' TInt, fk_column ''p'' ''P'' ''id'']]"

lemmas schema_defs = pk_column_def fk_column_def mk_table_def mk_schema_def
lemmas resolver_defs = toposort_tables_def kahn_ordered_def resolver_graph_def dependency_edges_def
  fk_edges_def foreign_keys_def add_edge_def set_add_def initial_ready_def
lemmas valid_defs = valid_schema_def valid_table_def valid_column_def fk_resolves_def table_by_name_def

section \<open>Properties of the resolver\<close>

lemma valid_iter_id: "valid_iter (\<lambda>xs. xs)"
  unfolding valid_iter_def by simp

lemma valid_iter_rev: "valid_iter rev"
  unfolding valid_iter_def by simp

lemma build_graph_self_ref:
  "(x, x) \<in> set es \<Longrightarrow> \<exists>y. build_graph ts es g = Inl (SelfReferentialFK y) \<and> (y, y) \<in> set es"
proof (induction ts es g rule: build_graph.induct)
  case (1 ts g)
  then show ?case by simp
next
  case (2 ts child parent es g)
  show ?case
  proof (cases "child = parent")
    case True
    then show ?thesis by auto
  next
    case False
    with "2.prems" have "(x, x) \<in> set es" by auto
    from "2.IH" [OF False this] False show ?thesis by auto
  qed
qed

lemma relax_prefix:
  "relax ts cs (indeg, q) = Inr (indeg', q') \<Longrightarrow> prefix q q'"
proof (induction cs arbitrary: indeg q)
  case Nil
  then show ?case by simp
next
  case (Cons c cs)
  from Cons.prems have "c \<in> set ts" by (auto split: if_splits)
  with Cons.prems obtain q1 where
    "relax ts cs (indeg(c := indeg c - 1), q1) = Inr (indeg', q')" "prefix q q1"
    by (auto simp: Let_def split: if_splits)
  with Cons.IH show ?case by (metis prefix_order.order_trans)
qed

lemma kahn_prefix:
  "kahn iter ts out indeg q ordered = Inr res \<Longrightarrow> prefix (ordered @ q) res"
proof (induction iter ts out indeg q ordered rule: kahn.induct)
  case (1 iter ts out indeg ordered)
  then show ?case by simp
next
  case (2 iter ts out indeg t q ordered)
  from "2.prems" have t: "t \<in> set ts" by (auto split: if_splits)
  with "2.prems" obtain indeg' q' where
    r: "relax ts (iter (out t)) (indeg, q) = Inr (indeg', q')"
    and k: "kahn iter ts out indeg' q' (ordered @ [t]) = Inr res"
    by (auto split: sum.splits)
  from "2.IH" [OF _ r refl k] t have "prefix ((ordered @ [t]) @ q') res" by simp
  moreover from relax_prefix [OF r] have "prefix ((ordered @ [t]) @ q) ((ordered @ [t]) @ q')"
    by simp
  ultimately have "prefix ((ordered @ [t]) @ q) res" by (metis prefix_order.order_trans)
  then show ?case by simp
qed

lemma kahn_cong:
  "\<forall>t \<in> set ts. iter' (out t) = iter (out t) \<Longrightarrow>
   kahn iter' ts out indeg q ordered = kahn iter ts out indeg q ordered"
proof (induction iter ts out indeg q ordered rule: kahn.induct)
  case (1 iter ts out indeg ordered)
  then show ?case by simp
next
  case (2 iter ts out indeg t q ordered)
  show ?case
  proof (cases "t \<in> set ts")
    case False
    then show ?thesis by simp
  next
    case True
    with "2.prems" have e: "iter' (out t) = iter (out t)" by blast
    show ?thesis
    proof (cases "relax ts (iter (out t)) (indeg, q)")
      case (Inl err)
      with True e show ?thesis by simp
    next
      case (Inr p)
      obtain indeg' q' where p: "p = (indeg', q')" by (cases p)
      from "2.IH" [OF _ Inr [unfolded p] refl "2.prems"] True
      have "kahn iter' ts out indeg' q' (ordered @ [t]) = kahn iter ts out indeg' q' (ordered @ [t])"
        by simp
      with True e Inr p show ?thesis by simp
    qed
  qed
qed

text \<open>
  Claim C2: two foreign keys from the same child table into the same parent table count
  as one dependency edge, the child's indegree receives 1 from that parent, and the schema
  still yields a total order. On \<open>dup_fk_schema\<close> (table \<open>X\<close> with two foreign keys into
  \<open>Y\<close>) the code does otherwise: the guard of line 19 tests \<open>parent\<close> where it means
  \<open>child\<close>, so it never fires, the indegree of \<open>X\<close> becomes 2 while \<open>out[Y]\<close> holds
  \<open>X\<close> once, and the resolver ends in the cycle error naming \<open>X\<close>.
\<close>
theorem duplicate_fk_counted_twice:
  "map_sum (\<lambda>e. e) (\<lambda>(indeg, out). (indeg ''X'', out ''Y'')) (resolver_graph dup_fk_schema)
     = Inr (2, [''X'']) \<and>
   toposort_tables (\<lambda>xs. xs) dup_fk_schema = Inl (CyclicFK [''X''])"
  by (simp add: dup_fk_schema_def schema_defs resolver_defs)

text \<open>
  Claim C4: whenever the resolver returns an order for a valid schema, that order is a
  permutation of the table names, and for every foreign-key edge the parent stands at a
  strictly smaller index than the child. This holds for every iteration order of the
  child sets.
\<close>
theorem toposort_permutation_and_order:
  assumes "valid_schema s" and "valid_iter iter" and "toposort_tables iter s = Inr order"
  shows "mset order = mset (map tbl_name (tables s)) \<and>
         (\<forall>(child, parent) \<in> set (dependency_edges s).
            index_of order parent < index_of order child)"
proof -
  from toposort_sound [OF assms]
  have d: "distinct order" and s: "set order = set (map tbl_name (tables s))"
    and e: "\<forall>(c, p) \<in> set (dependency_edges s). index_of order p < index_of order c"
    by auto
  from assms(1) have "distinct (map tbl_name (tables s))"
    unfolding valid_schema_def by simp
  with d s have "mset order = mset (map tbl_name (tables s))"
    by (metis set_eq_iff_mset_eq_distinct)
  with e show ?thesis by simp
qed

theorem toposort_permutation_and_order_witness:
  "valid_schema fan_schema \<and> valid_iter rev \<and>
   toposort_tables rev fan_schema = Inr [''P'', ''B'', ''A''] \<and>
   mset [''P'', ''B'', ''A''] = mset (map tbl_name (tables fan_schema)) \<and>
   index_of [''P'', ''B'', ''A''] ''P'' < index_of [''P'', ''B'', ''A''] ''A'' \<and>
   index_of [''P'', ''B'', ''A''] ''P'' < index_of [''P'', ''B'', ''A''] ''B''"
proof -
  have v: "valid_schema fan_schema"
    by (simp add: fan_schema_def schema_defs valid_defs)
  have r: "toposort_tables rev fan_schema = Inr [''P'', ''B'', ''A'']"
    by (simp add: fan_schema_def schema_defs resolver_defs)
  from toposort_permutation_and_order [OF v valid_iter_rev r] v valid_iter_rev r
  show ?thesis
    by (simp add: fan_schema_def schema_defs dependency_edges_def fk_edges_def foreign_keys_def)
qed


definition has_self_reference :: "Schema \<Rightarrow> bool" where
  "has_self_reference schema =
     list_ex (\<lambda>t. list_ex (\<lambda>col. case foreign_key col of
                                     None \<Rightarrow> False
                                   | Some fk \<Rightarrow> ref_table fk = tbl_name t) (columns t))
       (tables schema)"

lemma self_reference_edge:
  "has_self_reference s \<Longrightarrow> \<exists>x. (x, x) \<in> set (dependency_edges s)"
proof -
  assume "has_self_reference s"
  then obtain t col fk where "t \<in> set (tables s)" "col \<in> set (columns t)"
    "foreign_key col = Some fk" "ref_table fk = tbl_name t"
    unfolding has_self_reference_def list_ex_iff by (auto split: option.splits)
  with fk_is_edge [of t s col fk] show ?thesis by auto
qed

text \<open>
  Claim C5: when the loop has ordered fewer tables than the schema declares, the resolver
  raises the cycle error naming exactly the tables left unordered; the cycle
  \<open>A \<rightarrow> B \<rightarrow> C \<rightarrow> A\<close> raises it naming \<open>A\<close>, \<open>B\<close>, \<open>C\<close>; and a schema with a table
  that references itself never yields an order: the resolver raises its self-reference
  \<open>ValueError\<close> on a table that has such a foreign key.
\<close>
theorem cycle_error_names_unordered_tables:
  "(\<forall>ordered. kahn_ordered iter s = Inr ordered \<longrightarrow> length ordered < length (tables s) \<longrightarrow>
      (\<exists>remaining. toposort_tables iter s = Inl (CyclicFK remaining) \<and>
         set remaining = set (map tbl_name (tables s)) - set ordered)) \<and>
   toposort_tables iter cycle_abc = Inl (CyclicFK [''A'', ''B'', ''C'']) \<and>
   (has_self_reference s \<longrightarrow>
      (\<exists>x. toposort_tables iter s = Inl (SelfReferentialFK x) \<and>
           (x, x) \<in> set (dependency_edges s)))"
proof (intro conjI allI impI)
  fix ordered
  assume k: "kahn_ordered iter s = Inr ordered" and l: "length ordered < length (tables s)"
  let ?rem = "filter (\<lambda>t. t \<notin> set ordered) (map tbl_name (tables s))"
  from k l have "toposort_tables iter s = Inl (CyclicFK ?rem)"
    unfolding toposort_tables_def by (simp add: Let_def)
  moreover have "set ?rem = set (map tbl_name (tables s)) - set ordered" by auto
  ultimately show "\<exists>remaining. toposort_tables iter s = Inl (CyclicFK remaining) \<and>
      set remaining = set (map tbl_name (tables s)) - set ordered" by blast
next
  show "toposort_tables iter cycle_abc = Inl (CyclicFK [''A'', ''B'', ''C''])"
    by (simp add: cycle_abc_def schema_defs resolver_defs)
next
  assume "has_self_reference s"
  from self_reference_edge [OF this] obtain x where "(x, x) \<in> set (dependency_edges s)" ..
  from build_graph_self_ref [OF this] obtain y where
    "resolver_graph s = Inl (SelfReferentialFK y)" "(y, y) \<in> set (dependency_edges s)"
    unfolding resolver_graph_def by blast
  then show "\<exists>x. toposort_tables iter s = Inl (SelfReferentialFK x) \<and>
      (x, x) \<in> set (dependency_edges s)"
    unfolding toposort_tables_def kahn_ordered_def by (auto simp: Let_def)
qed

theorem cycle_error_names_unordered_tables_witness:
  "kahn_ordered id cycle_abc = Inr [] \<and>
   length ([] :: string list) < length (tables cycle_abc) \<and>
   toposort_tables id cycle_abc = Inl (CyclicFK [''A'', ''B'', ''C'']) \<and>
   has_self_reference self_ref_schema \<and>
   toposort_tables id self_ref_schema = Inl (SelfReferentialFK ''T'')"
proof -
  have k: "kahn_ordered id cycle_abc = Inr []"
    by (simp add: cycle_abc_def schema_defs resolver_defs)
  have l: "length ([] :: string list) < length (tables cycle_abc)"
    by (simp add: cycle_abc_def schema_defs)
  have h: "has_self_reference self_ref_schema"
    by (simp add: self_ref_schema_def schema_defs has_self_reference_def)
  have r: "toposort_tables id self_ref_schema = Inl (SelfReferentialFK ''T'')"
    by (simp add: self_ref_schema_def schema_defs resolver_defs)
  from cycle_error_names_unordered_tables [of id cycle_abc]
  have "toposort_tables id cycle_abc = Inl (CyclicFK [''A'', ''B'', ''C''])" by blast
  with k l h r show ?thesis by simp
qed

subsection \<open>The queue discipline of the resolver\<close>

text \<open>
  The notions the tie-break is stated in, read off the schema alone: the tables without a
  foreign key in declaration order, the set of child tables of a table (the children named
  by the dependency edges into it, each once), and the parent of a table that comes last
  in a given order.
\<close>

definition roots :: "Schema \<Rightarrow> string list" where
  "roots s = map tbl_name (filter (\<lambda>t. foreign_keys t = []) (tables s))"

definition child_tables :: "Schema \<Rightarrow> string \<Rightarrow> string list" where
  "child_tables s p = fold set_add (map fst (filter (\<lambda>e. snd e = p) (dependency_edges s))) []"

definition last_such :: "('a \<Rightarrow> bool) \<Rightarrow> 'a list \<Rightarrow> 'a option" where
  "last_such P xs = (case filter P xs of [] \<Rightarrow> None | y # ys \<Rightarrow> Some (last (y # ys)))"

definition last_parent :: "Schema \<Rightarrow> string list \<Rightarrow> string \<Rightarrow> string option" where
  "last_parent s order c = last_such (\<lambda>p. (c, p) \<in> set (dependency_edges s)) order"

text \<open>
  The tables that join the queue while \<open>p\<close> is processed: the children of \<open>p\<close> whose last
  parent in the order is \<open>p\<close>, in the order in which the child set of \<open>p\<close> is iterated.
\<close>

definition enqueued_by :: "(string list \<Rightarrow> string list) \<Rightarrow> Schema \<Rightarrow> string list \<Rightarrow> string \<Rightarrow> string list" where
  "enqueued_by iter s order p =
     filter (\<lambda>c. last_parent s order c = Some p) (iter (child_tables s p))"

lemma fold_set_add_set: "set (fold set_add xs acc) = set xs \<union> set acc"
  by (induction xs arbitrary: acc) (auto simp: set_add_def)

lemma child_tables_member:
  "c \<in> set (child_tables s p) \<longleftrightarrow> (c, p) \<in> set (dependency_edges s)"
  unfolding child_tables_def fold_set_add_set by force

lemma build_graph_out:
  "build_graph ts es (indeg, out) = Inr (indeg', out') \<Longrightarrow>
   \<forall>(c, p) \<in> set es. c \<in> set ts \<and> p \<in> set ts \<Longrightarrow> \<forall>p. p \<notin> set (out p) \<Longrightarrow>
   out' p = fold set_add (map fst (filter (\<lambda>e. snd e = p) es)) (out p)"
proof (induction es arbitrary: indeg out)
  case Nil
  then show ?case by simp
next
  case (Cons e es)
  obtain c p0 where e: "e = (c, p0)" by (cases e)
  from Cons.prems(1) e have ne: "c \<noteq> p0" by (auto split: if_splits)
  from Cons.prems(2) e have in_ts: "c \<in> set ts" "p0 \<in> set ts" by auto
  let ?out1 = "out(p0 := set_add c (out p0))"
  let ?indeg1 = "indeg(c := indeg c + 1)"
  have a: "add_edge ts (indeg, out) (c, p0) = (?indeg1, ?out1)"
    unfolding add_edge_def using in_ts Cons.prems(3) by simp
  from Cons.prems(1) e ne a have b: "build_graph ts es (?indeg1, ?out1) = Inr (indeg', out')"
    by simp
  have n1: "\<forall>p. p \<notin> set (?out1 p)"
    using Cons.prems(3) ne by (auto simp: set_add_def)
  from Cons.prems(2) have es: "\<forall>(c, p) \<in> set es. c \<in> set ts \<and> p \<in> set ts" by simp
  from Cons.IH [OF b es n1]
  have "out' p = fold set_add (map fst (filter (\<lambda>e. snd e = p) es)) (?out1 p)" .
  then show ?case using e by simp
qed

text \<open>
  The counters of the loop, tracked exactly: \<open>indeg x\<close> is the number of parents of \<open>x\<close>
  not yet processed, plus a surplus \<open>slack x\<close> that never changes.
\<close>

definition exact_inv :: "string list \<Rightarrow> (string \<Rightarrow> string list) \<Rightarrow> (string \<Rightarrow> int) \<Rightarrow> (string \<Rightarrow> int)
    \<Rightarrow> string list \<Rightarrow> string list \<Rightarrow> bool" where
  "exact_inv ts out slack indeg q ordered \<longleftrightarrow>
     distinct (ordered @ q) \<and> set (ordered @ q) \<subseteq> set ts \<and>
     (\<forall>x \<in> set (ordered @ q). indeg x \<le> 0) \<and>
     (\<forall>x \<in> set ts. indeg x = slack x + int (card (unprocessed ts out ordered x)))"

lemma exact_inv_step:
  assumes inv: "exact_inv ts out slack indeg (t # q) ordered"
    and cs: "distinct cs" "set cs = set (out t)"
    and out_ts: "set (out t) \<subseteq> set ts"
  shows "exact_inv ts out slack (\<lambda>x. if x \<in> set cs then indeg x - 1 else indeg x)
           (q @ filter (\<lambda>x. indeg x = 1) cs) (ordered @ [t])"
proof -
  let ?indeg' = "\<lambda>x. if x \<in> set cs then indeg x - 1 else indeg x"
  let ?new = "filter (\<lambda>x. indeg x = 1) cs"
  from inv have d: "distinct (ordered @ t # q)"
    and s: "set (ordered @ t # q) \<subseteq> set ts"
    and z: "\<forall>x \<in> set (ordered @ t # q). indeg x \<le> 0"
    and u: "\<forall>x \<in> set ts. indeg x = slack x + int (card (unprocessed ts out ordered x))"
    unfolding exact_inv_def by auto
  have t_ts: "t \<in> set ts" and t_new: "t \<notin> set ordered" using d s by auto
  have new_fresh: "\<forall>x \<in> set ?new. x \<notin> set (ordered @ t # q)"
    using z by fastforce
  have d': "distinct ((ordered @ [t]) @ q @ ?new)"
    using d new_fresh cs(1) by auto
  have s': "set ((ordered @ [t]) @ q @ ?new) \<subseteq> set ts"
    using s cs(2) out_ts by auto
  have z': "\<forall>x \<in> set ((ordered @ [t]) @ q @ ?new). ?indeg' x \<le> 0"
  proof
    fix x assume "x \<in> set ((ordered @ [t]) @ q @ ?new)"
    then consider "x \<in> set (ordered @ t # q)" | "x \<in> set ?new" by auto
    then show "?indeg' x \<le> 0"
    proof cases
      case 1
      with z have "indeg x \<le> 0" by blast
      then show ?thesis by simp
    next
      case 2
      then show ?thesis by simp
    qed
  qed
  have u': "?indeg' x = slack x + int (card (unprocessed ts out (ordered @ [t]) x))"
    if x: "x \<in> set ts" for x
  proof (cases "x \<in> set cs")
    case True
    then have "t \<in> unprocessed ts out ordered x"
      using t_ts t_new cs(2) unfolding unprocessed_def by simp
    then have "card (unprocessed ts out ordered x - {t}) = card (unprocessed ts out ordered x) - 1"
      and "0 < card (unprocessed ts out ordered x)"
      using finite_unprocessed [of ts out ordered x] by (auto simp: card_gt_0_iff)
    with u [rule_format, OF x] True show ?thesis
      by (simp add: unprocessed_step)
  next
    case False
    then have "t \<notin> unprocessed ts out ordered x"
      using cs(2) unfolding unprocessed_def by simp
    with u [rule_format, OF x] False show ?thesis
      by (simp add: unprocessed_step)
  qed
  from d' s' z' u' show ?thesis
    unfolding exact_inv_def by blast
qed

lemma kahn_no_slack:
  "kahn iter ts out indeg q ordered = Inr res \<Longrightarrow>
   valid_iter iter \<Longrightarrow> \<forall>p. distinct (out p) \<Longrightarrow> \<forall>p. set (out p) \<subseteq> set ts \<Longrightarrow>
   \<forall>x. 0 \<le> slack x \<Longrightarrow> exact_inv ts out slack indeg q ordered \<Longrightarrow>
   \<forall>x \<in> set res. slack x = 0"
proof (induction iter ts out indeg q ordered rule: kahn.induct)
  case (1 iter ts out indeg ordered)
  from "1.prems"(1) have r: "res = ordered" by simp
  show ?case
  proof
    fix x assume "x \<in> set res"
    with r "1.prems"(6) have "x \<in> set ts" "indeg x \<le> 0"
      "indeg x = slack x + int (card (unprocessed ts out ordered x))"
      unfolding exact_inv_def by auto
    with "1.prems"(5) [rule_format, of x] show "slack x = 0" by simp
  qed
next
  case (2 iter ts out indeg t q ordered)
  note vi = "2.prems"(2) and out_d = "2.prems"(3) and out_ts = "2.prems"(4)
    and sl = "2.prems"(5) and inv = "2.prems"(6)
  from inv have t_ts: "t \<in> set ts" unfolding exact_inv_def by simp
  let ?cs = "iter (out t)"
  from vi out_d have cs: "distinct ?cs" "set ?cs = set (out t)"
    unfolding valid_iter_def by auto
  with out_ts have sub: "set ?cs \<subseteq> set ts" by simp
  let ?indeg' = "\<lambda>x. if x \<in> set ?cs then indeg x - 1 else indeg x"
  let ?q' = "q @ filter (\<lambda>x. indeg x = 1) ?cs"
  have r: "relax ts ?cs (indeg, q) = Inr (?indeg', ?q')"
    by (rule relax_closed [OF cs(1) sub])
  have inv': "exact_inv ts out slack ?indeg' ?q' (ordered @ [t])"
    using exact_inv_step [OF inv cs] out_ts by simp
  from "2.prems"(1) t_ts r
  have k: "kahn iter ts out ?indeg' ?q' (ordered @ [t]) = Inr res" by simp
  from "2.IH" [OF _ r refl k vi out_d out_ts sl inv'] t_ts show ?case by simp
qed

lemma last_such_some: "filter P xs \<noteq> [] \<Longrightarrow> last_such P xs = Some (last (filter P xs))"
  unfolding last_such_def by (cases "filter P xs") simp_all

lemma last_such_mid:
  assumes d: "distinct (xs @ t # ys)" and t: "P t"
  shows "last_such P (xs @ t # ys) = Some t \<longleftrightarrow> filter P ys = []"
proof -
  have f: "filter P (xs @ t # ys) = filter P xs @ t # filter P ys" using t by simp
  then have ls: "last_such P (xs @ t # ys) = Some (last (filter P xs @ t # filter P ys))"
    using last_such_some [of P "xs @ t # ys"] by simp
  show ?thesis
  proof (cases "filter P ys = []")
    case True
    with ls show ?thesis by simp
  next
    case False
    then have "last (filter P xs @ t # filter P ys) = last (filter P ys)" by simp
    moreover from False have "last (filter P ys) \<in> set (filter P ys)" by (rule last_in_set)
    then have "last (filter P ys) \<in> set ys" by simp
    with d have "last (filter P ys) \<noteq> t" by auto
    ultimately show ?thesis using ls False by simp
  qed
qed

lemma kahn_fifo:
  "kahn iter ts out indeg q ordered = Inr res \<Longrightarrow>
   valid_iter iter \<Longrightarrow> \<forall>p. distinct (out p) \<Longrightarrow> \<forall>p. set (out p) \<subseteq> set ts \<Longrightarrow>
   exact_inv ts out (\<lambda>_. 0) indeg q ordered \<Longrightarrow> distinct res \<Longrightarrow> set res = set ts \<Longrightarrow>
   res = ordered @ q @
     concat (map (\<lambda>p. filter (\<lambda>c. last_such (\<lambda>p'. c \<in> set (out p')) res = Some p) (iter (out p)))
       (drop (length ordered) res))"
proof (induction iter ts out indeg q ordered rule: kahn.induct)
  case (1 iter ts out indeg ordered)
  then show ?case by simp
next
  case (2 iter ts out indeg t q ordered)
  note vi = "2.prems"(2) and out_d = "2.prems"(3) and out_ts = "2.prems"(4)
    and inv = "2.prems"(5) and dres = "2.prems"(6) and sres = "2.prems"(7)
  let ?N = "\<lambda>p. filter (\<lambda>c. last_such (\<lambda>p'. c \<in> set (out p')) res = Some p) (iter (out p))"
  from inv have t_ts: "t \<in> set ts"
    and u: "\<forall>x \<in> set ts. indeg x = int (card (unprocessed ts out ordered x))"
    unfolding exact_inv_def by simp_all
  let ?cs = "iter (out t)"
  from vi out_d have cs: "distinct ?cs" "set ?cs = set (out t)"
    unfolding valid_iter_def by auto
  with out_ts have sub: "set ?cs \<subseteq> set ts" by simp
  let ?indeg' = "\<lambda>x. if x \<in> set ?cs then indeg x - 1 else indeg x"
  let ?new = "filter (\<lambda>x. indeg x = 1) ?cs"
  let ?q' = "q @ ?new"
  have r: "relax ts ?cs (indeg, q) = Inr (?indeg', ?q')"
    by (rule relax_closed [OF cs(1) sub])
  have inv': "exact_inv ts out (\<lambda>_. 0) ?indeg' ?q' (ordered @ [t])"
    using exact_inv_step [OF inv cs] out_ts by simp
  from "2.prems"(1) t_ts r
  have k: "kahn iter ts out ?indeg' ?q' (ordered @ [t]) = Inr res" by simp
  from "2.IH" [OF _ r refl k vi out_d out_ts inv' dres sres] t_ts
  have ih: "res = (ordered @ [t]) @ ?q' @ concat (map ?N (drop (length (ordered @ [t])) res))"
    by simp
  from kahn_prefix [OF k] obtain zs where "res = ((ordered @ [t]) @ ?q') @ zs"
    unfolding prefix_def by blast
  then obtain tail where res: "res = ordered @ t # tail" by simp
  have dr: "drop (length ordered) res = t # tail" using res by simp
  have dr': "drop (length (ordered @ [t])) res = tail" using res by simp
  have new: "?N t = ?new"
  proof (rule filter_cong [OF refl])
    fix c assume c: "c \<in> set ?cs"
    let ?P = "\<lambda>p'. c \<in> set (out p')"
    from c cs(2) have pt: "?P t" by simp
    from c sub have c_ts: "c \<in> set ts" by blast
    from dres res have d: "distinct (ordered @ t # tail)" by simp
    have "unprocessed ts out ordered c = insert t (set (filter ?P tail))"
      unfolding unprocessed_def using sres [symmetric] res d pt by auto
    moreover have "t \<notin> set (filter ?P tail)" using d by simp
    ultimately have "card (unprocessed ts out ordered c) = Suc (card (set (filter ?P tail)))"
      by simp
    with u c_ts have "indeg c = 1 \<longleftrightarrow> card (set (filter ?P tail)) = 0" by simp
    also have "\<dots> \<longleftrightarrow> filter ?P tail = []" by (auto simp: filter_empty_conv)
    also have "\<dots> \<longleftrightarrow> last_such ?P (ordered @ t # tail) = Some t"
      using last_such_mid [OF d, of ?P] pt by simp
    finally show "(last_such ?P res = Some t) = (indeg c = 1)" using res by simp
  qed
  from ih have "res = ordered @ t # q @ ?new @ concat (map ?N tail)"
    unfolding dr' by simp
  with new have "res = ordered @ (t # q) @ concat (map ?N (t # tail))" by simp
  then show ?case unfolding dr .
qed

lemma has_foreign_key_edge:
  assumes d: "distinct (map tbl_name (tables s))" and t: "t \<in> set (tables s)"
  shows "(\<exists>p. (tbl_name t, p) \<in> set (dependency_edges s)) \<longleftrightarrow> foreign_keys t \<noteq> []"
proof
  assume "\<exists>p. (tbl_name t, p) \<in> set (dependency_edges s)"
  then obtain p where "(tbl_name t, p) \<in> set (dependency_edges s)" ..
  from edge_is_fk [OF this] obtain t' col fk where
    t': "t' \<in> set (tables s)" "col \<in> set (columns t')" "foreign_key col = Some fk"
    "tbl_name t = tbl_name t'"
    by blast
  from d have "inj_on tbl_name (set (tables s))" by (simp add: distinct_map)
  with t t'(1,4) have "t' = t" by (auto dest: inj_onD)
  with t'(2,3) have "col \<in> set (foreign_keys t)" unfolding foreign_keys_def by simp
  then show "foreign_keys t \<noteq> []" by auto
next
  assume "foreign_keys t \<noteq> []"
  then obtain col where "col \<in> set (foreign_keys t)" by (cases "foreign_keys t") auto
  then obtain fk where "col \<in> set (columns t)" "foreign_key col = Some fk"
    unfolding foreign_keys_def by auto
  from fk_is_edge [OF t this] show "\<exists>p. (tbl_name t, p) \<in> set (dependency_edges s)" ..
qed

lemma initial_ready_roots:
  assumes vs: "valid_schema s"
    and out: "\<forall>p. out p = child_tables s p"
    and u: "\<forall>x \<in> set (map tbl_name (tables s)).
        indeg x = int (card (unprocessed (map tbl_name (tables s)) out [] x))"
  shows "initial_ready (map tbl_name (tables s)) indeg = roots s"
proof -
  let ?ts = "map tbl_name (tables s)"
  from vs have d: "distinct ?ts" unfolding valid_schema_def by simp
  have "(indeg (tbl_name t) = 0) = (foreign_keys t = [])" if t: "t \<in> set (tables s)" for t
  proof -
    from t have n: "tbl_name t \<in> set ?ts" by simp
    have e: "unprocessed ?ts out [] (tbl_name t) = {p. (tbl_name t, p) \<in> set (dependency_edges s)}"
      unfolding unprocessed_def using out child_tables_member edges_in_tables [OF vs] by auto
    from u [rule_format, OF n] have "indeg (tbl_name t) = 0 \<longleftrightarrow>
        card (unprocessed ?ts out [] (tbl_name t)) = 0" by linarith
    also have "\<dots> \<longleftrightarrow> unprocessed ?ts out [] (tbl_name t) = {}"
      using finite_unprocessed [of ?ts out "[]" "tbl_name t"] by (rule card_0_eq)
    also have "\<dots> \<longleftrightarrow> \<not> (\<exists>p. (tbl_name t, p) \<in> set (dependency_edges s))"
      unfolding e by auto
    also have "\<dots> \<longleftrightarrow> foreign_keys t = []"
      using has_foreign_key_edge [OF d t] by simp
    finally show ?thesis .
  qed
  then have "filter (\<lambda>t. indeg (tbl_name t) = 0) (tables s) = filter (\<lambda>t. foreign_keys t = []) (tables s)"
    by (intro filter_cong) simp_all
  then show ?thesis
    unfolding initial_ready_def roots_def by (simp add: filter_map o_def)
qed

definition two_roots_schema :: Schema where
  "two_roots_schema = mk_schema
     [mk_table ''S'' [pk_column ''id'' TInt],
      mk_table ''R'' [pk_column ''id'' TInt],
      mk_table ''X'' [pk_column ''id'' TInt, fk_column ''r'' ''R'' ''id''],
      mk_table ''Y'' [pk_column ''id'' TInt, fk_column ''s'' ''S'' ''id''],
      mk_table ''Z'' [pk_column ''id'' TInt, fk_column ''s'' ''S'' ''id'', fk_column ''r'' ''R'' ''id'']]"

text \<open>
  Claim C6 says the resulting order depends on the schema alone and follows declaration
  order rather than any collection's iteration order. The children of a popped table are
  visited in the iteration order of the Python set \<open>out[t]\<close>: on \<open>fan_schema\<close> two
  admissible iteration orders give two different table orders.
\<close>
theorem child_order_follows_set_iteration:
  "valid_iter id \<and> valid_iter rev \<and>
   toposort_tables id fan_schema = Inr [''P'', ''A'', ''B''] \<and>
   toposort_tables rev fan_schema = Inr [''P'', ''B'', ''A'']"
  by (simp add: valid_iter_def fan_schema_def schema_defs resolver_defs)

text \<open>
  Claim C6 as amended. On a validated schema that the resolver orders: the tables without
  a foreign key (the tables of indegree 0) enter the ready queue in schema declaration
  order and are the first tables of the result, in that order. The queue is first in,
  first out: after them come, for each table \<open>p\<close> of the result in turn, the tables that
  became ready while \<open>p\<close> was processed, which are the children of \<open>p\<close> whose last parent
  in the result is \<open>p\<close>, in the order in which the child set of \<open>p\<close> (a Python set) is
  iterated, not in declaration order. The result is a function of the schema and of
  those iteration orders: any iteration that treats every child set of the schema alike
  gives the same result.
\<close>

theorem resolver_queue_discipline:
  assumes vs: "valid_schema s" and vi: "valid_iter iter"
    and res: "toposort_tables iter s = Inr order"
  shows "order = roots s @ concat (map (enqueued_by iter s order) order) \<and>
         prefix (roots s) order \<and>
         (\<forall>iter'. (\<forall>t \<in> set order. iter' (child_tables s t) = iter (child_tables s t))
            \<longrightarrow> toposort_tables iter' s = Inr order)"
proof -
  let ?ts = "map tbl_name (tables s)"
  from toposort_sound [OF vs vi res]
  have dres: "distinct order" and sres: "set order = set ?ts" by simp_all
  from res obtain indeg out where
    bg: "build_graph ?ts (dependency_edges s) (\<lambda>_. 0, \<lambda>_. []) = Inr (indeg, out)"
    unfolding toposort_tables_def kahn_ordered_def resolver_graph_def
    by (auto simp: Let_def split: sum.splits)
  with res have k: "kahn iter ?ts out indeg (initial_ready ?ts indeg) [] = Inr order"
    unfolding toposort_tables_def kahn_ordered_def resolver_graph_def
    by (auto simp: Let_def split: sum.splits if_splits)
  from build_graph_inv [OF bg graph_inv_empty]
  have gi: "graph_inv ?ts (indeg, out)" by simp
  then have out_d: "\<forall>p. distinct (out p)" and out_ts: "\<forall>p. set (out p) \<subseteq> set ?ts"
    and u: "\<forall>x. int (card (unprocessed ?ts out [] x)) \<le> indeg x"
    unfolding graph_inv_def by auto
  have in_ts: "\<forall>(c, p) \<in> set (dependency_edges s). c \<in> set ?ts \<and> p \<in> set ?ts"
    using edges_in_tables [OF vs] by blast
  have out_eq: "\<forall>p. out p = child_tables s p"
    using build_graph_out [OF bg in_ts] unfolding child_tables_def by simp
  define slack where "slack x = indeg x - int (card (unprocessed ?ts out [] x))" for x
  have sl: "\<forall>x. 0 \<le> slack x" using u unfolding slack_def by simp
  from vs have dts: "distinct ?ts" unfolding valid_schema_def by simp
  have inv0: "exact_inv ?ts out slack indeg (initial_ready ?ts indeg) []"
    unfolding exact_inv_def initial_ready_def slack_def using dts by auto
  from kahn_no_slack [OF k vi out_d out_ts sl inv0] sres
  have ex: "\<forall>x \<in> set ?ts. indeg x = int (card (unprocessed ?ts out [] x))"
    unfolding slack_def by auto
  have inv1: "exact_inv ?ts out (\<lambda>_. 0) indeg (initial_ready ?ts indeg) []"
    unfolding exact_inv_def initial_ready_def using dts ex by auto
  have par: "(\<lambda>p'. c \<in> set (out p')) = (\<lambda>p'. (c, p') \<in> set (dependency_edges s))" for c
    using out_eq child_tables_member by simp
  from kahn_fifo [OF k vi out_d out_ts inv1 dres sres]
  have "order = initial_ready ?ts indeg @
      concat (map (\<lambda>p. filter (\<lambda>c. last_such (\<lambda>p'. c \<in> set (out p')) order = Some p) (iter (out p)))
        order)"
    by simp
  then have eq: "order = roots s @ concat (map (enqueued_by iter s order) order)"
    unfolding par initial_ready_roots [OF vs out_eq ex] enqueued_by_def last_parent_def
    using out_eq by simp
  then have p: "prefix (roots s) order" unfolding prefix_def by blast
  have "toposort_tables iter' s = Inr order"
    if "\<forall>t \<in> set order. iter' (child_tables s t) = iter (child_tables s t)" for iter'
  proof -
    from that sres out_eq have "\<forall>t \<in> set ?ts. iter' (out t) = iter (out t)" by simp
    from kahn_cong [OF this]
    have "kahn_ordered iter' s = kahn_ordered iter s"
      unfolding kahn_ordered_def resolver_graph_def using bg by (simp add: Let_def)
    with res show ?thesis unfolding toposort_tables_def by simp
  qed
  with eq p show ?thesis by blast
qed

theorem resolver_queue_discipline_witness:
  "valid_schema two_roots_schema \<and> valid_iter rev \<and>
   toposort_tables rev two_roots_schema = Inr [''S'', ''R'', ''Y'', ''Z'', ''X''] \<and>
   roots two_roots_schema = [''S'', ''R''] \<and>
   child_tables two_roots_schema ''R'' = [''X'', ''Z''] \<and>
   enqueued_by rev two_roots_schema [''S'', ''R'', ''Y'', ''Z'', ''X''] ''S'' = [''Y''] \<and>
   enqueued_by rev two_roots_schema [''S'', ''R'', ''Y'', ''Z'', ''X''] ''R'' = [''Z'', ''X''] \<and>
   [''S'', ''R'', ''Y'', ''Z'', ''X''] =
     roots two_roots_schema @
     concat (map (enqueued_by rev two_roots_schema [''S'', ''R'', ''Y'', ''Z'', ''X''])
       [''S'', ''R'', ''Y'', ''Z'', ''X'']) \<and>
   toposort_tables (\<lambda>xs. if length xs = 2 then rev xs else xs) two_roots_schema
     = Inr [''S'', ''R'', ''Y'', ''Z'', ''X'']"
proof -
  let ?order = "[''S'', ''R'', ''Y'', ''Z'', ''X'']"
  have v: "valid_schema two_roots_schema"
    by (simp add: two_roots_schema_def schema_defs valid_defs)
  have r: "toposort_tables rev two_roots_schema = Inr ?order"
    by (simp add: two_roots_schema_def schema_defs resolver_defs)
  have rt: "roots two_roots_schema = [''S'', ''R'']"
    by (simp add: roots_def two_roots_schema_def schema_defs foreign_keys_def)
  have ct: "child_tables two_roots_schema ''S'' = [''Y'', ''Z'']"
    "child_tables two_roots_schema ''R'' = [''X'', ''Z'']"
    "child_tables two_roots_schema ''X'' = []"
    "child_tables two_roots_schema ''Y'' = []"
    "child_tables two_roots_schema ''Z'' = []"
    by (simp_all add: child_tables_def two_roots_schema_def schema_defs dependency_edges_def
        fk_edges_def foreign_keys_def set_add_def)
  have es: "enqueued_by rev two_roots_schema ?order ''S'' = [''Y'']"
    "enqueued_by rev two_roots_schema ?order ''R'' = [''Z'', ''X'']"
    unfolding enqueued_by_def ct
    by (simp_all add: last_parent_def last_such_def two_roots_schema_def schema_defs
        dependency_edges_def fk_edges_def foreign_keys_def)
  have c: "\<forall>t \<in> set ?order.
      (\<lambda>xs. if length xs = 2 then rev xs else xs) (child_tables two_roots_schema t)
        = rev (child_tables two_roots_schema t)"
    using ct by simp
  note th = resolver_queue_discipline [OF v valid_iter_rev r]
  from th have eq: "?order = roots two_roots_schema @
      concat (map (enqueued_by rev two_roots_schema ?order) ?order)"
    by (rule conjunct1)
  from th have "\<forall>iter'. (\<forall>t \<in> set ?order.
        iter' (child_tables two_roots_schema t) = rev (child_tables two_roots_schema t))
      \<longrightarrow> toposort_tables iter' two_roots_schema = Inr ?order"
    by (elim conjE)
  from this [THEN spec, THEN mp, OF c]
  have r2: "toposort_tables (\<lambda>xs. if length xs = 2 then rev xs else xs) two_roots_schema
      = Inr ?order" .
  from v valid_iter_rev r rt ct(2) es eq r2 show ?thesis by (intro conjI)
qed

section \<open>The emitted generation procedure (the script text in app/synth_data/codegen.py)\<close>

text \<open>
  \<open>generate_faker_python_script\<close> formats the schema, the resolver's order, the row
  count and the seed into the text of a Python program. The program is modelled by the
  values it was formatted from (\<open>script\<close>) and by its function \<open>generate\<close>; the
  line numbers below are those of codegen.py.

  The program calls three libraries, which are parameters of the model:
  \<^item> Python's \<open>random\<close> module, a generator state \<open>'r\<close> with the operations the
    program uses (\<open>random.seed\<close>, \<open>random.random\<close>, \<open>getrandbits\<close>, and
    \<open>_randbelow\<close>, on which \<open>randint\<close> and \<open>choice\<close> rest);
  \<^item> the Faker object, a generator state \<open>'f\<close> of its own, seeded by \<open>Faker.seed\<close>,
    and its attributes by name (\<open>faker_attr\<close> is \<open>None\<close> where \<open>hasattr\<close> is false; a
    call that raises returns \<open>None\<close>);
  \<^item> the operating system's entropy, read by \<open>uuid.uuid4()\<close> through \<open>os.urandom(16)\<close>:
    \<open>urandom k\<close> is the \<open>k\<close>-th such read of a run. No seed reaches it, so it is an
    argument of the run, not of the environment.
\<close>

datatype val = VInt int | VStr string | VFloat rat | VBool bool

text \<open>
  What a Faker provider returns: a \<open>uuid.UUID\<close> (with its \<open>str()\<close>), a \<open>date\<close> or
  \<open>datetime\<close> (with its \<open>isoformat()\<close>), or a plain value.
\<close>

datatype pyobj = PyUUID string | PyTemporal string | PyVal val

datatype gen_error =
    UnsupportedKey string
  | MissingParentRows string string string
  | UniquenessExhausted string
  | LookupError string
  | AttributeError string
  | ProviderRaised string

record ('r, 'f) env =
  random_seed :: "int \<Rightarrow> 'r"
  random_random :: "'r \<Rightarrow> rat \<times> 'r"
  random_randbelow :: "nat \<Rightarrow> 'r \<Rightarrow> nat \<times> 'r"
  random_getrandbits :: "nat \<Rightarrow> 'r \<Rightarrow> nat \<times> 'r"
  faker_seed :: "int \<Rightarrow> 'f"
  faker_attr :: "string \<Rightarrow> ('f \<Rightarrow> (pyobj \<times> 'f) option) option"

type_synonym row = "string \<rightharpoonup> val"

text \<open>A CSV file: the header (\<open>fieldnames\<close>) and the dicts given to \<open>writerow\<close>.\<close>

type_synonym csv_file = "string list \<times> row list"

record ('r, 'f) gen_state =
  py_random :: 'r
  fake :: 'f
  entropy_pos :: nat
  pk_values :: "string \<rightharpoonup> val list"
  unique_tracker_by_table :: "string \<rightharpoonup> (string \<rightharpoonup> val set)"
  files :: "string \<rightharpoonup> csv_file"

subsection \<open>\<open>_infer_provider\<close> (lines 92-122)\<close>

text \<open>
  Strings are byte strings here; \<open>lower\<close> maps the ASCII capitals, as \<open>str.lower\<close> does
  on ASCII text.
\<close>

definition lower_char :: "char \<Rightarrow> char" where
  "lower_char c =
     (case map_of (zip ''ABCDEFGHIJKLMNOPQRSTUVWXYZ'' ''abcdefghijklmnopqrstuvwxyz'') c of
        None \<Rightarrow> c
      | Some l \<Rightarrow> l)"

definition lower :: "string \<Rightarrow> string" where
  "lower s = map lower_char s"

text \<open>\<open>sub in n\<close> and \<open>n.endswith(suf)\<close>.\<close>

fun contains :: "string \<Rightarrow> string \<Rightarrow> bool" where
  "contains sub [] = (sub = [])"
| "contains sub (c # cs) = (prefix sub (c # cs) \<or> contains sub cs)"

definition endswith :: "string \<Rightarrow> string \<Rightarrow> bool" where
  "endswith n suf = prefix (rev suf) (rev n)"

definition infer_provider :: "string \<Rightarrow> string option" where
  "infer_provider col_name' =
     (let n = lower col_name' in
      if n = ''id'' \<or> endswith n ''_id'' then Some ''uuid4''
      else if contains ''email'' n then Some ''email''
      else if n = ''first_name'' \<or> n = ''firstname'' then Some ''first_name''
      else if n = ''last_name'' \<or> n = ''lastname'' \<or> n = ''surname'' then Some ''last_name''
      else if contains ''name'' n then Some ''name''
      else if contains ''company'' n \<or> contains ''employer'' n then Some ''company''
      else if contains ''phone'' n \<or> contains ''mobile'' n then Some ''phone_number''
      else if contains ''address'' n then Some ''street_address''
      else if contains ''city'' n then Some ''city''
      else if contains ''state'' n \<or> contains ''province'' n then Some ''state''
      else if contains ''country'' n then Some ''country''
      else if contains ''zip'' n \<or> contains ''postal'' n then Some ''postcode''
      else if endswith n ''_at'' \<or> contains ''timestamp'' n \<or> contains ''datetime'' n
        then Some ''date_time''
      else if contains ''date'' n then Some ''date_object''
      else None)"

subsection \<open>\<open>_generate_scalar\<close> (lines 125-163)\<close>

text \<open>
  Line 127: \<open>col.get("faker") or _infer_provider(col["name"])\<close>. Python's \<open>or\<close> takes
  the hint unless it is \<open>None\<close> or the empty string.
\<close>

definition provider_of :: "Column \<Rightarrow> string option" where
  "provider_of col =
     (case faker col of
        None \<Rightarrow> infer_provider (col_name col)
      | Some hint \<Rightarrow> if hint \<noteq> [] then Some hint else infer_provider (col_name col))"

text \<open>Lines 133-139: the provider's value, a UUID or a date turned into its text.\<close>

fun normalise :: "pyobj \<Rightarrow> val" where
  "normalise (PyUUID s) = VStr s"
| "normalise (PyTemporal s) = VStr s"
| "normalise (PyVal v) = v"

definition call_provider :: "string \<Rightarrow> ('f \<Rightarrow> (pyobj \<times> 'f) option) \<Rightarrow> 'r \<times> 'f
    \<Rightarrow> gen_error + (val \<times> 'r \<times> 'f)" where
  "call_provider name call rf =
     (case rf of (r, f) \<Rightarrow>
        (case call f of
           None \<Rightarrow> Inl (ProviderRaised name)
         | Some (v, f') \<Rightarrow> Inr (normalise v, r, f')))"

text \<open>\<open>fake.date_object().isoformat()\<close> and \<open>fake.date_time().isoformat()\<close>.\<close>

definition fake_isoformat :: "('r, 'f) env \<Rightarrow> string \<Rightarrow> 'r \<times> 'f \<Rightarrow> gen_error + (val \<times> 'r \<times> 'f)" where
  "fake_isoformat E name rf =
     (case rf of (r, f) \<Rightarrow>
        (case faker_attr E name of
           None \<Rightarrow> Inl (AttributeError name)
         | Some call \<Rightarrow>
             (case call f of
                None \<Rightarrow> Inl (ProviderRaised name)
              | Some (PyTemporal s, f') \<Rightarrow> Inr (VStr s, r, f')
              | Some (_, f') \<Rightarrow> Inl (AttributeError ''isoformat''))))"

text \<open>
  \<open>round(random.random() * 10_000, 2)\<close>, over the rationals: the nearest multiple
  of 1/100.
\<close>

definition round2 :: "rat \<Rightarrow> rat" where
  "round2 x = of_int (round (x * 100)) / 100"

text \<open>Lines 141-152: the fallback on the column's type.\<close>

definition type_fallback :: "('r, 'f) env \<Rightarrow> Column \<Rightarrow> 'r \<times> 'f \<Rightarrow> gen_error + (val \<times> 'r \<times> 'f)" where
  "type_fallback E col rf =
     (case rf of (r, f) \<Rightarrow>
        (case col_type col of
          TInt \<Rightarrow>
            (case random_randbelow E 10000000 r of
               (k, r') \<Rightarrow> Inr (VInt (1 + int (k mod 10000000)), r', f))
        | TFloat \<Rightarrow>
            (case random_random E r of (u, r') \<Rightarrow> Inr (VFloat (round2 (u * 10000)), r', f))
        | TBool \<Rightarrow>
            (case random_getrandbits E 1 r of (k, r') \<Rightarrow> Inr (VBool (k mod 2 = 1), r', f))
        | TDate \<Rightarrow> fake_isoformat E ''date_object'' (r, f)
        | TDatetime \<Rightarrow> fake_isoformat E ''date_time'' (r, f)
        | TStr \<Rightarrow>
            (case faker_attr E ''word'' of
               None \<Rightarrow> Inl (AttributeError ''word'')
             | Some call \<Rightarrow> call_provider ''word'' call (r, f))))"

text \<open>The closure \<open>gen\<close> (lines 131-152).\<close>

definition gen :: "('r, 'f) env \<Rightarrow> Column \<Rightarrow> 'r \<times> 'f \<Rightarrow> gen_error + (val \<times> 'r \<times> 'f)" where
  "gen E col rf =
     (case provider_of col of
        None \<Rightarrow> type_fallback E col rf
      | Some provider \<Rightarrow>
          if provider \<noteq> [] then
            (case faker_attr E provider of
               None \<Rightarrow> type_fallback E col rf
             | Some call \<Rightarrow> call_provider provider call rf)
          else type_fallback E col rf)"

text \<open>Lines 156-161: at most \<open>n\<close> more attempts at a value not seen before.\<close>

fun unique_retry :: "nat \<Rightarrow> ('r, 'f) env \<Rightarrow> Column \<Rightarrow> val set \<Rightarrow> 'r \<times> 'f
    \<Rightarrow> gen_error + (val \<times> val set \<times> 'r \<times> 'f)" where
  "unique_retry 0 E col seen rf = Inl (UniquenessExhausted (col_name col))"
| "unique_retry (Suc n) E col seen rf =
     (case gen E col rf of
        Inl e \<Rightarrow> Inl e
      | Inr (v, rf') \<Rightarrow>
          if v \<notin> seen then Inr (v, insert v seen, rf')
          else unique_retry n E col seen rf')"

definition seen_of :: "(string \<rightharpoonup> val set) \<Rightarrow> string \<Rightarrow> val set" where
  "seen_of tracker key = (case tracker key of None \<Rightarrow> {} | Some s \<Rightarrow> s)"

definition generate_scalar :: "('r, 'f) env \<Rightarrow> Column \<Rightarrow> (string \<rightharpoonup> val set) \<Rightarrow> 'r \<times> 'f
    \<Rightarrow> gen_error + (val \<times> (string \<rightharpoonup> val set) \<times> 'r \<times> 'f)" where
  "generate_scalar E col unique_tracker rf =
     (let key = col_name col in
      if unique col then
        (case unique_retry 1000 E col (seen_of unique_tracker key) rf of
           Inl e \<Rightarrow> Inl e
         | Inr (v, seen', rf') \<Rightarrow> Inr (v, unique_tracker(key \<mapsto> seen'), rf'))
      else
        (case gen E col rf of
           Inl e \<Rightarrow> Inl e
         | Inr (v, rf') \<Rightarrow> Inr (v, unique_tracker, rf')))"

subsection \<open>\<open>_pk_generator\<close> (lines 166-171)\<close>

text \<open>
  \<open>uuid.uuid4()\<close> is \<open>UUID(bytes=os.urandom(16), version=4)\<close>: the 128 bits with the
  variant and version fields overwritten, and \<open>str\<close> of it the 32 hexadecimal digits in
  groups of 8, 4, 4, 4 and 12.
\<close>

definition uuid4_int :: "128 word \<Rightarrow> 128 word" where
  "uuid4_int bytes =
     (let i1 = and bytes (not (push_bit 48 0xc000));
          i2 = or i1 (push_bit 48 0x8000);
          i3 = and i2 (not (push_bit 64 0xf000))
      in or i3 (push_bit 76 4))"

definition hex_digit :: "nat \<Rightarrow> char" where
  "hex_digit d = ''0123456789abcdef'' ! d"

definition hex32 :: "128 word \<Rightarrow> string" where
  "hex32 w = map (\<lambda>i. hex_digit (unat (and (drop_bit (4 * (31 - i)) w) 15))) [0..<32]"

definition uuid_str :: "128 word \<Rightarrow> string" where
  "uuid_str w =
     (let h = hex32 w
      in take 8 h @ ''-'' @ take 4 (drop 8 h) @ ''-'' @ take 4 (drop 12 h) @ ''-'' @
         take 4 (drop 16 h) @ ''-'' @ drop 20 h)"

definition pk_generator :: "(nat \<Rightarrow> 128 word) \<Rightarrow> Column \<Rightarrow> nat \<Rightarrow> nat \<Rightarrow> val \<times> nat" where
  "pk_generator urandom col row_idx pos =
     (if col_type col = TInt then (VInt (int row_idx + 1), pos)
      else (VStr (uuid_str (uuid4_int (urandom pos))), Suc pos))"

subsection \<open>\<open>generate\<close> (lines 174-236)\<close>

text \<open>A \<open>for\<close> loop whose body may raise: the first error ends it.\<close>

fun for_each :: "('a \<Rightarrow> 's \<Rightarrow> 'e + 's) \<Rightarrow> 'a list \<Rightarrow> 's \<Rightarrow> 'e + 's" where
  "for_each body [] s = Inr s"
| "for_each body (x # xs) s =
     (case body x s of Inl e \<Rightarrow> Inl e | Inr s' \<Rightarrow> for_each body xs s')"

definition pool :: "('r, 'f) gen_state \<Rightarrow> string \<Rightarrow> val list" where
  "pool st parent_table = (case pk_values st parent_table of None \<Rightarrow> [] | Some vs \<Rightarrow> vs)"

text \<open>
  Line 231: the call of \<open>_generate_scalar\<close> with the table's tracker, which is the dict
  stored in \<open>unique_tracker_by_table\<close> (line 200), so what the call adds stays there.
\<close>

definition scalar_cell :: "('r, 'f) env \<Rightarrow> string \<Rightarrow> Column
    \<Rightarrow> ('r, 'f) gen_state \<times> row \<Rightarrow> gen_error + (('r, 'f) gen_state \<times> row)" where
  "scalar_cell E table_name c sr =
     (case sr of (st, row) \<Rightarrow>
        (case generate_scalar E c
               (case unique_tracker_by_table st table_name of None \<Rightarrow> Map.empty | Some t \<Rightarrow> t)
               (py_random st, fake st) of
          Inl e \<Rightarrow> Inl e
        | Inr (v, tracker', r', f') \<Rightarrow>
            Inr (st\<lparr>py_random := r', fake := f',
                    unique_tracker_by_table :=
                      (unique_tracker_by_table st)(table_name \<mapsto> tracker')\<rparr>,
                 row(col_name c \<mapsto> v))))"

text \<open>
  Lines 211-231: one column of one row. \<open>random.choice(candidates)\<close> is
  \<open>candidates[_randbelow(len(candidates))]\<close>; the index is reduced modulo the length, which
  changes nothing for a \<open>_randbelow\<close> that keeps its bound. In
  \<open>c.get("nullable") and random.random() < 0.05\<close> the draw happens only for a nullable
  column.
\<close>

definition gen_cell :: "('r, 'f) env \<Rightarrow> (nat \<Rightarrow> 128 word) \<Rightarrow> string \<Rightarrow> nat \<Rightarrow> Column
    \<Rightarrow> ('r, 'f) gen_state \<times> row \<Rightarrow> gen_error + (('r, 'f) gen_state \<times> row)" where
  "gen_cell E urandom table_name i c sr =
     (case sr of (st, row) \<Rightarrow>
        let cname = col_name c in
        if primary_key c then
          (case pk_generator urandom c i (entropy_pos st) of
             (v, pos') \<Rightarrow> Inr (st\<lparr>entropy_pos := pos'\<rparr>, row(cname \<mapsto> v)))
        else
          (case foreign_key c of
             Some fk \<Rightarrow>
               (let parent_table = ref_table fk;
                    candidates = pool st parent_table
                in if candidates = [] then Inl (MissingParentRows table_name cname parent_table)
                   else (case random_randbelow E (length candidates) (py_random st) of
                           (k, r') \<Rightarrow>
                             Inr (st\<lparr>py_random := r'\<rparr>,
                                  row(cname \<mapsto> candidates ! (k mod length candidates)))))
           | None \<Rightarrow>
               if nullable c then
                 (case random_random E (py_random st) of
                    (u, r') \<Rightarrow>
                      if u < 5 / 100 then Inr (st\<lparr>py_random := r'\<rparr>, row(cname \<mapsto> VStr ''''))
                      else scalar_cell E table_name c (st\<lparr>py_random := r'\<rparr>, row))
               else scalar_cell E table_name c (st, row)))"

text \<open>
  Lines 209-234: one row. \<open>writer.writerow(row)\<close> appends to the open file,
  \<open>pk_values[table_name].append\<close> to the pool.
\<close>

definition gen_row :: "('r, 'f) env \<Rightarrow> (nat \<Rightarrow> 128 word) \<Rightarrow> string \<Rightarrow> Column list \<Rightarrow> Column
    \<Rightarrow> nat \<Rightarrow> ('r, 'f) gen_state \<Rightarrow> gen_error + ('r, 'f) gen_state" where
  "gen_row E urandom table_name cols pk_col i st =
     (case for_each (gen_cell E urandom table_name i) cols (st, Map.empty) of
        Inl e \<Rightarrow> Inl e
      | Inr (st', row) \<Rightarrow>
          (case (files st' table_name, row (col_name pk_col), pk_values st' table_name) of
             (Some (header, rows), Some pk, Some vs) \<Rightarrow>
               Inr (st'\<lparr>files := (files st')(table_name \<mapsto> (header, rows @ [row])),
                        pk_values := (pk_values st')(table_name \<mapsto> vs @ [pk])\<rparr>)
           | _ \<Rightarrow> Inl (LookupError table_name)))"

text \<open>Lines 189-234: one table.\<close>

definition gen_table :: "('r, 'f) env \<Rightarrow> (nat \<Rightarrow> 128 word) \<Rightarrow> Schema \<Rightarrow> int \<Rightarrow> string
    \<Rightarrow> ('r, 'f) gen_state \<Rightarrow> gen_error + ('r, 'f) gen_state" where
  "gen_table E urandom schema rows table_name st =
     (case table_by_name (tables schema) table_name of
        None \<Rightarrow> Inl (LookupError table_name)
      | Some table \<Rightarrow>
          (let cols = columns table in
           case filter primary_key cols of
             [pk_col] \<Rightarrow>
               (let st1 = st\<lparr>
                      unique_tracker_by_table :=
                        (case unique_tracker_by_table st table_name of
                           None \<Rightarrow> (unique_tracker_by_table st)(table_name \<mapsto> Map.empty)
                         | Some _ \<Rightarrow> unique_tracker_by_table st),
                      files := (files st)(table_name \<mapsto> (map col_name cols, [])),
                      pk_values :=
                        (case pk_values st table_name of
                           None \<Rightarrow> (pk_values st)(table_name \<mapsto> [])
                         | Some _ \<Rightarrow> pk_values st)\<rparr>
                in for_each (gen_row E urandom table_name cols pk_col) [0..<nat rows] st1)
           | _ \<Rightarrow> Inl (UnsupportedKey table_name)))"

text \<open>The values formatted into the script text, and the script's \<open>generate\<close>.\<close>

record script =
  SCHEMA :: Schema
  TABLE_ORDER :: "string list"
  rows_per_table :: int
  seed :: int

definition initial_state :: "('r, 'f) env \<Rightarrow> script \<Rightarrow> ('r, 'f) gen_state" where
  "initial_state E scr =
     \<lparr>py_random = random_seed E (seed scr), fake = faker_seed E (seed scr),
      entropy_pos = 0, pk_values = Map.empty,
      unique_tracker_by_table = Map.empty, files = Map.empty\<rparr>"

definition generate :: "('r, 'f) env \<Rightarrow> script \<Rightarrow> (nat \<Rightarrow> 128 word)
    \<Rightarrow> gen_error + (string \<rightharpoonup> csv_file)" where
  "generate E scr urandom =
     (case for_each (gen_table E urandom (SCHEMA scr) (rows_per_table scr))
             (TABLE_ORDER scr) (initial_state E scr) of
        Inl e \<Rightarrow> Inl e
      | Inr st \<Rightarrow> Inr (files st))"

subsection \<open>\<open>generate_faker_python_script\<close> (lines 42-61)\<close>




subsection \<open>An environment and schemas to run the procedure on\<close>

text \<open>
  A small deterministic stand-in for the two libraries: both generators are counters.
  \<open>random.random()\<close> walks through 0.00, 0.01, ..., 0.99; the Faker of this environment
  has the providers \<open>email\<close>, \<open>word\<close> and \<open>uuid4\<close> and no other attribute.
\<close>

definition demo_faker :: "string \<Rightarrow> (nat \<Rightarrow> (pyobj \<times> nat) option) option" where
  "demo_faker name =
     (if name = ''email''
        then Some (\<lambda>f. Some (PyVal (VStr (replicate (Suc f) CHR ''u'' @ ''@example.com'')), Suc f))
      else if name = ''word''
        then Some (\<lambda>f. Some (PyVal (VStr (replicate (Suc f) CHR ''w'')), Suc f))
      else if name = ''uuid4''
        then Some (\<lambda>f. Some (PyUUID (uuid_str (uuid4_int (word_of_nat f))), Suc f))
      else None)"

definition demo_env :: "(nat, nat) env" where
  "demo_env =
     \<lparr>random_seed = (\<lambda>s. nat \<bar>s\<bar>),
      random_random = (\<lambda>r. (of_nat (r mod 100) / 100, Suc r)),
      random_randbelow = (\<lambda>n r. (r, Suc r)),
      random_getrandbits = (\<lambda>k r. (r, Suc r)),
      faker_seed = (\<lambda>s. nat \<bar>s\<bar>),
      faker_attr = demo_faker\<rparr>"

text \<open>The example of the specification: users and their orders.\<close>

definition plain_col :: "string \<Rightarrow> ScalarType \<Rightarrow> Column" where
  "plain_col n ty = \<lparr>col_name = n, col_type = ty, col_description = None, primary_key = False,
     foreign_key = None, nullable = False, unique = False, faker = None\<rparr>"

definition shop_schema :: Schema where
  "shop_schema = mk_schema
     [mk_table ''orders'' [pk_column ''order_id'' TInt,
                           (fk_column ''user_id'' ''users'' ''user_id'')\<lparr>nullable := True\<rparr>],
      mk_table ''users'' [pk_column ''user_id'' TInt, (plain_col ''email'' TStr)\<lparr>unique := True\<rparr>]]"

definition shop_script :: script where
  "shop_script = \<lparr>SCHEMA = shop_schema, TABLE_ORDER = [''users'', ''orders''],
     rows_per_table = 2, seed = 1\<rparr>"



text \<open>A column that is both unique and nullable.\<close>

definition code_col :: Column where
  "code_col = (plain_col ''code'' TInt)\<lparr>nullable := True, unique := True\<rparr>"



lemmas gen_defs = generate_def initial_state_def gen_table_def gen_row_def gen_cell_def scalar_cell_def pool_def pk_generator_def
  generate_scalar_def seen_of_def gen_def provider_of_def type_fallback_def call_provider_def
  fake_isoformat_def table_by_name_def

lemmas demo_defs = demo_env_def demo_faker_def plain_col_def code_col_def


section \<open>Properties of scalar synthesis\<close>

lemma infer_provider_nonempty: "infer_provider n = Some p \<Longrightarrow> p \<noteq> []"
  unfolding infer_provider_def by (auto simp: Let_def split: if_splits)

lemma provider_of_nonempty: "provider_of col = Some p \<Longrightarrow> p \<noteq> []"
  unfolding provider_of_def
  by (auto split: option.splits if_splits dest: infer_provider_nonempty)

lemma type_fallback_faker: "type_fallback E (col\<lparr>faker := h\<rparr>) rf = type_fallback E col rf"
  by (simp add: type_fallback_def)



text \<open>
  The priority of the provider in the words of the specification: the hint when it is
  present and Faker has an attribute of that name, otherwise the inference from the
  column's name, otherwise the fallback on the type.
\<close>

definition spec_gen :: "('r, 'f) env \<Rightarrow> Column \<Rightarrow> 'r \<times> 'f \<Rightarrow> gen_error + (val \<times> 'r \<times> 'f)" where
  "spec_gen E col rf =
     (case (case faker col of
              None \<Rightarrow> None
            | Some hint \<Rightarrow> map_option (Pair hint) (faker_attr E hint)) of
        Some (hint, call) \<Rightarrow> call_provider hint call rf
      | None \<Rightarrow>
          (case infer_provider (col_name col) of
             None \<Rightarrow> type_fallback E col rf
           | Some p \<Rightarrow>
               (case faker_attr E p of
                  None \<Rightarrow> type_fallback E col rf
                | Some call \<Rightarrow> call_provider p call rf)))"

definition bogus_hint_col :: Column where
  "bogus_hint_col = (plain_col ''email'' TInt)\<lparr>faker := Some ''bogus''\<rparr>"

text \<open>
  Claim C7 gives the priority of the provider as: the hint when present and recognised,
  otherwise the inference from the column's name, otherwise the fallback on the type; so
  a hint that Faker does not know would still reach the inference from the name.
  \<open>spec_gen\<close> is that priority in these words. The code differs on a column named
  \<open>email\<close> of type \<open>int\<close> whose hint is \<open>bogus\<close>: it draws a random integer, where
  the priority of the claim gives an e-mail address.
\<close>

theorem unrecognised_hint_skips_name_inference:
  "gen demo_env bogus_hint_col (0, 0) = Inr (VInt 1, 1, 0) \<and>
   spec_gen demo_env bogus_hint_col (0, 0) = Inr (VStr ''u@example.com'', 0, 1)"
  by (simp add: bogus_hint_col_def gen_defs demo_defs spec_gen_def infer_provider_def
      lower_def lower_char_def endswith_def)

text \<open>
  Claim C7 as amended: the hint is taken when it is present and not empty; a hint that is
  recognised is called, and so far the code follows the priority of the claim, as it does
  when there is no hint; a hint that is present, not empty and not recognised goes to the
  fallback on the type, and the name is not consulted.
\<close>

theorem provider_priority:
  "(faker col = None \<longrightarrow> gen E col rf = spec_gen E col rf) \<and>
   (\<forall>hint. faker col = Some hint \<longrightarrow> hint \<noteq> [] \<longrightarrow> faker_attr E hint \<noteq> None \<longrightarrow>
      gen E col rf = spec_gen E col rf) \<and>
   (\<forall>hint. faker col = Some hint \<longrightarrow> hint \<noteq> [] \<longrightarrow> faker_attr E hint = None \<longrightarrow>
      gen E col rf = type_fallback E col rf) \<and>
   (faker col = Some [] \<longrightarrow> gen E col rf = gen E (col\<lparr>faker := None\<rparr>) rf)"
proof (intro conjI allI impI)
  assume "faker col = None"
  then show "gen E col rf = spec_gen E col rf"
    unfolding gen_def spec_gen_def provider_of_def
    by (auto split: option.splits dest: infer_provider_nonempty)
next
  fix hint
  assume "faker col = Some hint" "hint \<noteq> []" "faker_attr E hint \<noteq> None"
  then show "gen E col rf = spec_gen E col rf"
    unfolding gen_def spec_gen_def provider_of_def by auto
next
  fix hint
  assume "faker col = Some hint" "hint \<noteq> []" "faker_attr E hint = None"
  then show "gen E col rf = type_fallback E col rf"
    unfolding gen_def provider_of_def by simp
next
  assume "faker col = Some []"
  then show "gen E col rf = gen E (col\<lparr>faker := None\<rparr>) rf"
    by (auto simp: gen_def provider_of_def type_fallback_faker split: option.splits)
qed

theorem provider_priority_witness:
  "faker (plain_col ''email'' TInt) = None \<and>
   gen demo_env (plain_col ''email'' TInt) (0, 0) = Inr (VStr ''u@example.com'', 0, 1) \<and>
   spec_gen demo_env (plain_col ''email'' TInt) (0, 0) = Inr (VStr ''u@example.com'', 0, 1) \<and>
   faker ((plain_col ''note'' TInt)\<lparr>faker := Some ''word''\<rparr>) = Some ''word'' \<and>
   faker_attr demo_env ''word'' \<noteq> None \<and>
   gen demo_env ((plain_col ''note'' TInt)\<lparr>faker := Some ''word''\<rparr>) (0, 0)
     = Inr (VStr ''w'', 0, 1) \<and>
   faker bogus_hint_col = Some ''bogus'' \<and> faker_attr demo_env ''bogus'' = None \<and>
   gen demo_env bogus_hint_col (0, 0) = type_fallback demo_env bogus_hint_col (0, 0) \<and>
   gen demo_env ((plain_col ''email'' TInt)\<lparr>faker := Some []\<rparr>) (0, 0)
     = Inr (VStr ''u@example.com'', 0, 1)"
proof -
  note p = provider_priority [of "plain_col ''email'' TInt" demo_env "(0, 0)"]
    provider_priority [of "(plain_col ''note'' TInt)\<lparr>faker := Some ''word''\<rparr>" demo_env "(0, 0)"]
    provider_priority [of bogus_hint_col demo_env "(0, 0)"]
    provider_priority [of "(plain_col ''email'' TInt)\<lparr>faker := Some []\<rparr>" demo_env "(0, 0)"]
  have a: "gen demo_env (plain_col ''email'' TInt) (0, 0) = Inr (VStr ''u@example.com'', 0, 1)"
    by (simp add: gen_defs demo_defs infer_provider_def lower_def lower_char_def endswith_def)
  have b: "gen demo_env ((plain_col ''note'' TInt)\<lparr>faker := Some ''word''\<rparr>) (0, 0)
      = Inr (VStr ''w'', 0, 1)"
    by (simp add: gen_defs demo_defs)
  have c: "faker bogus_hint_col = Some ''bogus''" "faker_attr demo_env ''bogus'' = None"
    "faker_attr demo_env ''word'' \<noteq> None" "faker (plain_col ''email'' TInt) = None"
    by (simp_all add: bogus_hint_col_def demo_defs)
  have d: "(plain_col ''email'' TInt)\<lparr>faker := Some []\<rparr>\<lparr>faker := None\<rparr> = plain_col ''email'' TInt"
    by (simp add: plain_col_def)
  from p a b c d show ?thesis by simp
qed







end
